theory Spec2Isabelle
  imports Main
begin

section \<open>Word-wrapping and line-truncating streams (lib/argp-fmtstream.c)\<close>

text \<open>
  A shallow embedding of \<^verbatim>\<open>lib/argp-fmtstream.c\<close>. The stream owns one buffer
  \<^verbatim>\<open>buf\<close> of \<^verbatim>\<open>end - buf\<close> allocated bytes; it is modelled as the list of all
  allocated bytes, so that \<^verbatim>\<open>end\<close> is its length and the bytes at and after
  \<^verbatim>\<open>p\<close> are whatever the allocator or an earlier write left there.

  Numbers: \<^verbatim>\<open>size_t\<close> is 64 bits wide and \<^verbatim>\<open>ssize_t\<close> its two's complement
  reading; both are \<open>int\<close> with the conversions written out. A pointer into the
  buffer is its offset from \<^verbatim>\<open>buf\<close>, an unbounded \<open>int\<close> (negative before the
  buffer): adding a \<^verbatim>\<open>size_t\<close> to a pointer adds its two's complement value, as
  address arithmetic on a flat 64-bit address space does, and the difference of two
  pointers converted to \<^verbatim>\<open>size_t\<close> is taken modulo \<open>2 ^ 64\<close>.

  Every access to a byte outside the allocated buffer is the result
  \<open>Inl OutOfBounds\<close>; a loop that has used up its fuel is \<open>Inl FuelExhausted\<close>.
\<close>

subsection \<open>Machine integers\<close>

definition to_size :: "int \<Rightarrow> int" where
  "to_size x = x mod 2 ^ 64"

definition to_ssize :: "int \<Rightarrow> int" where
  "to_ssize x = (if x mod 2 ^ 64 < 2 ^ 63 then x mod 2 ^ 64 else x mod 2 ^ 64 - 2 ^ 64)"

definition to_int32 :: "int \<Rightarrow> int" where
  "to_int32 x = (if x mod 2 ^ 32 < 2 ^ 31 then x mod 2 ^ 32 else x mod 2 ^ 32 - 2 ^ 32)"

subsection \<open>The buffer and the C library's memory functions\<close>

datatype fault = OutOfBounds | FuelExhausted

definition NL :: char where
  "NL = CHR 0x0A"

definition NUL :: char where
  "NUL = CHR 0x00"

definition in_buf :: "string \<Rightarrow> int \<Rightarrow> int \<Rightarrow> bool" where
  "in_buf b s n = (0 \<le> s \<and> s + n \<le> int (length b))"

definition bytes_at :: "string \<Rightarrow> int \<Rightarrow> int \<Rightarrow> string" where
  "bytes_at b s n = take (nat n) (drop (nat s) b)"

definition store :: "string \<Rightarrow> int \<Rightarrow> string \<Rightarrow> string" where
  "store b d xs = take (nat d) b @ xs @ drop (nat d + length xs) b"

text \<open>\<^verbatim>\<open>memmove (dst, src, n)\<close> and \<^verbatim>\<open>memcpy\<close>: nothing happens for \<open>n = 0\<close>.\<close>

definition memmove :: "string \<Rightarrow> int \<Rightarrow> int \<Rightarrow> int \<Rightarrow> fault + string" where
  "memmove b dst src n =
     (if n = 0 then Inr b
      else if in_buf b src n \<and> in_buf b dst n then Inr (store b dst (bytes_at b src n))
      else Inl OutOfBounds)"

definition memcpy :: "string \<Rightarrow> int \<Rightarrow> string \<Rightarrow> fault + string" where
  "memcpy b dst xs =
     (if xs = [] then Inr b
      else if in_buf b dst (int (length xs)) then Inr (store b dst xs)
      else Inl OutOfBounds)"

text \<open>A single byte written through a pointer or an index.\<close>

definition poke :: "string \<Rightarrow> int \<Rightarrow> char \<Rightarrow> fault + string" where
  "poke b i c = (if 0 \<le> i \<and> i < int (length b) then Inr (b[nat i := c]) else Inl OutOfBounds)"

text \<open>
  \<^verbatim>\<open>memchr (s, c, n)\<close> reads the bytes from \<open>s\<close> on in order and stops at the first
  match or after \<open>n\<close> bytes; the result is the offset of the match. A scan that
  leaves the buffer before it has found a match is out of bounds.
\<close>

definition memchr :: "string \<Rightarrow> int \<Rightarrow> char \<Rightarrow> int \<Rightarrow> fault + int option" where
  "memchr b s c n =
     (if n = 0 then Inr None
      else if s < 0 \<or> int (length b) \<le> s then Inl OutOfBounds
      else let w = take (nat (min n (int (length b) - s))) (drop (nat s) b);
               k = length (takeWhile (\<lambda>x. x \<noteq> c) w)
           in if k < length w then Inr (Some (s + int k))
              else if s + n \<le> int (length b) then Inr None
              else Inl OutOfBounds)"

text \<open>The first and the last offset a completed \<^verbatim>\<open>memchr\<close> has read.\<close>

definition examined :: "int \<Rightarrow> int \<Rightarrow> int option \<Rightarrow> (int \<times> int) list" where
  "examined s n r =
     (if n = 0 then [] else [(s, case r of Some a \<Rightarrow> a | None \<Rightarrow> s + n - 1)])"

subsection \<open>The stream\<close>

text \<open>
  \<^verbatim>\<open>struct argp_fmtstream\<close> with the fields of the source, \<open>p\<close> as an offset from
  \<open>buf\<close>. Three more fields stand for what lies outside the struct: \<open>sink\<close> holds
  the bytes \<^verbatim>\<open>fs->stream\<close> has accepted, \<open>accepts\<close> says how many bytes the sink
  takes at each coming write call (no entry: all of them), \<open>enomem\<close> that
  \<^verbatim>\<open>errno\<close> was set to \<^verbatim>\<open>ENOMEM\<close>, and \<open>reads\<close> records the spans
  \<^verbatim>\<open>memchr\<close> has examined.
\<close>

record argp_fmtstream =
  sink :: string
  accepts :: "nat list"
  lmargin :: int
  rmargin :: int
  wmargin :: int
  point_offs :: int
  point_col :: int
  buf :: string
  p :: int
  enomem :: bool
  reads :: "(int \<times> int) list"

definition buf_end :: "argp_fmtstream \<Rightarrow> int" where
  "buf_end fs = int (length (buf fs))"

definition fwrite_unlocked :: "argp_fmtstream \<Rightarrow> string \<Rightarrow> nat \<times> argp_fmtstream" where
  "fwrite_unlocked fs bytes =
     (case accepts fs of
        [] \<Rightarrow> (length bytes, fs\<lparr>sink := sink fs @ bytes\<rparr>)
      | a # as \<Rightarrow> (min a (length bytes), fs\<lparr>sink := sink fs @ take a bytes, accepts := as\<rparr>))"

definition putc_unlocked :: "argp_fmtstream \<Rightarrow> char \<Rightarrow> argp_fmtstream" where
  "putc_unlocked fs c = snd (fwrite_unlocked fs [c])"

definition memchr_fs :: "argp_fmtstream \<Rightarrow> int \<Rightarrow> int \<Rightarrow> fault + (int option \<times> argp_fmtstream)" where
  "memchr_fs fs s n =
     (case memchr (buf fs) s NL n of
        Inl e \<Rightarrow> Inl e
      | Inr r \<Rightarrow> Inr (r, fs\<lparr>reads := reads fs @ examined s n r\<rparr>))"

subsection \<open>\<^verbatim>\<open>__argp_make_fmtstream\<close>\<close>

definition INIT_BUF_SIZE :: nat where
  "INIT_BUF_SIZE = 200"

definition PRINTF_SIZE_GUESS :: int where
  "PRINTF_SIZE_GUESS = 150"

text \<open>
  The two \<^verbatim>\<open>malloc\<close> calls are the arguments \<open>fs_ok\<close> (the struct was allocated)
  and \<open>mem\<close>: \<open>None\<close> when the buffer could not be allocated, else the byte each
  offset of the fresh block happens to hold.
\<close>

definition make_fmtstream ::
  "bool \<Rightarrow> (nat \<Rightarrow> char) option \<Rightarrow> nat list \<Rightarrow> int \<Rightarrow> int \<Rightarrow> int \<Rightarrow> argp_fmtstream option" where
  "make_fmtstream fs_ok mem stream lm rm wm =
     (if \<not> fs_ok then None
      else case mem of
        None \<Rightarrow> None
      | Some g \<Rightarrow>
          Some \<lparr>sink = [], accepts = stream,
                lmargin = lm, rmargin = rm, wmargin = wm,
                point_offs = 0, point_col = 0,
                buf = map g [0..<INIT_BUF_SIZE], p = 0,
                enomem = False, reads = []\<rparr>)"

subsection \<open>\<^verbatim>\<open>line_at_point\<close>\<close>

text \<open>
  The body of the loop of \<^verbatim>\<open>line_at_point\<close> (lines 134-154): output the first line
  so that its space can be used. \<open>queue\<close> is the pointer computed on entry of
  \<^verbatim>\<open>line_at_point\<close>; the loop does not update it.
\<close>

definition output_first_line :: "int \<Rightarrow> argp_fmtstream \<Rightarrow> fault + argp_fmtstream" where
  "output_first_line queue fs =
     (case memchr_fs fs 0 (point_offs fs) of
        Inl e \<Rightarrow> Inl e
      | Inr (r, fs0) \<Rightarrow>
          (case (case r of
                   Some a \<Rightarrow> Inr (a, buf fs0)
                 | None \<Rightarrow>
                     (case poke (buf fs0) (queue - 1) NL of
                        Inl e \<Rightarrow> Inl e
                      | Inr b \<Rightarrow> Inr (queue - 1, b))) of
             Inl e \<Rightarrow> Inl e
           | Inr (nl, b) \<Rightarrow>
               let fs1 = fs0\<lparr>buf := b\<rparr>;
                   fs2 = (if nl > 0 then snd (fwrite_unlocked fs1 (bytes_at b 0 nl)) else fs1);
                   fs3 = putc_unlocked fs2 NL
               in (case memmove b 0 (nl + 1) (to_size (nl + 1)) of
                     Inl e \<Rightarrow> Inl e
                   | Inr b' \<Rightarrow>
                       Inr (fs3\<lparr>buf := b',
                                p := p fs - (nl + 1),
                                point_offs := to_size (point_offs fs - (nl + 1))\<rparr>))))"

lemma memmove_length: "memmove b dst src n = Inr b' \<Longrightarrow> length b' = length b"
  by (auto simp: memmove_def store_def bytes_at_def in_buf_def split: if_splits)

lemma memcpy_length: "memcpy b dst xs = Inr b' \<Longrightarrow> length b' = length b"
  by (auto simp: memcpy_def store_def in_buf_def split: if_splits)

lemma poke_length: "poke b i c = Inr b' \<Longrightarrow> length b' = length b"
  by (auto simp: poke_def split: if_splits)

lemma memchr_found_ge:
  assumes "memchr b s c n = Inr (Some a)"
  shows "s \<le> a \<and> a < int (length b)"
proof -
  define w where "w = take (nat (min n (int (length b) - s))) (drop (nat s) b)"
  define k where "k = length (takeWhile (\<lambda>x. x \<noteq> c) w)"
  from assms have s: "0 \<le> s" and a: "a = s + int k" and k: "k < length w"
    by (auto simp: memchr_def Let_def w_def k_def split: if_splits)
  have "length w \<le> length b - nat s"
    by (simp add: w_def)
  with s a k show ?thesis
    by linarith
qed

lemma output_first_line_decreases:
  assumes "output_first_line queue fs = Inr fs'"
  shows "p fs' < p fs \<and> buf_end fs' = buf_end fs"
  using assms
  by (auto simp: output_first_line_def memchr_fs_def buf_end_def Let_def
        fwrite_unlocked_def putc_unlocked_def poke_def
      dest!: memmove_length memchr_found_ge
      split: sum.splits option.splits prod.splits if_splits list.splits)

text \<open>
  The loop of \<^verbatim>\<open>line_at_point\<close> (line 132): \<^verbatim>\<open>while (fs->p + space_needed > fs->end)\<close>.
\<close>

function reclaim :: "int \<Rightarrow> int \<Rightarrow> argp_fmtstream \<Rightarrow> fault + argp_fmtstream" where
  "reclaim space_needed queue fs =
     (if p fs + to_ssize space_needed > buf_end fs
      then (case output_first_line queue fs of
              Inl e \<Rightarrow> Inl e
            | Inr fs' \<Rightarrow> reclaim space_needed queue fs')
      else Inr fs)"
  by pat_completeness auto
termination
proof (relation "measure (\<lambda>(sn, q, fs). nat (p fs + to_ssize sn - buf_end fs))")
  show "wf (measure (\<lambda>(sn, q, fs). nat (p fs + to_ssize sn - buf_end fs)))"
    by simp
next
  fix space_needed queue :: int and fs fs' :: argp_fmtstream
  assume "buf_end fs < p fs + to_ssize space_needed"
    and "output_first_line queue fs = Inr fs'"
  then show "((space_needed, queue, fs'), (space_needed, queue, fs))
      \<in> measure (\<lambda>(sn, q, fs). nat (p fs + to_ssize sn - buf_end fs))"
    using output_first_line_decreases [of queue fs fs'] by simp
qed

declare reclaim.simps [simp del]

text \<open>
  The last loop of \<^verbatim>\<open>line_at_point\<close> (lines 163-164), \<open>n\<close> the number of its rounds.
\<close>

primrec pad_spaces :: "nat \<Rightarrow> argp_fmtstream \<Rightarrow> fault + argp_fmtstream" where
  "pad_spaces 0 fs = Inr fs"
| "pad_spaces (Suc n) fs =
     (case poke (buf fs) (to_ssize (point_offs fs)) (CHR '' '') of
        Inl e \<Rightarrow> Inl e
      | Inr b \<Rightarrow> pad_spaces n (fs\<lparr>buf := b, point_offs := to_size (point_offs fs + 1)\<rparr>))"

text \<open>
  \<^verbatim>\<open>line_at_point (fs, suffix)\<close>; \<open>None\<close> is the suffix \<^verbatim>\<open>NULL\<close>. First the
  value of its variable \<^verbatim>\<open>space_needed\<close> (lines 126-130).
\<close>

definition space_needed :: "argp_fmtstream \<Rightarrow> string option \<Rightarrow> int" where
  "space_needed fs suffix =
     (case suffix of
        None \<Rightarrow> to_size (wmargin fs)
      | Some s \<Rightarrow> to_size (to_size (wmargin fs) + int (length s)))"

definition line_at_point :: "argp_fmtstream \<Rightarrow> string option \<Rightarrow> fault + argp_fmtstream" where
  "line_at_point fs suffix =
     (let queue = to_ssize (point_offs fs)
      in case reclaim (space_needed fs suffix) queue fs of
           Inl e \<Rightarrow> Inl e
         | Inr fs1 \<Rightarrow>
             (case memmove (buf fs1) (queue + to_ssize (space_needed fs suffix)) queue
                     (to_size (p fs1 - queue)) of
                Inl e \<Rightarrow> Inl e
              | Inr b \<Rightarrow>
                  (case (case suffix of
                           None \<Rightarrow> Inr (fs1\<lparr>buf := b\<rparr>)
                         | Some s \<Rightarrow>
                             (case memcpy b queue s of
                                Inl e \<Rightarrow> Inl e
                              | Inr b' \<Rightarrow>
                                  Inr (fs1\<lparr>buf := b',
                                           point_offs := to_size (point_offs fs1 + int (length s))\<rparr>))) of
                     Inl e \<Rightarrow> Inl e
                   | Inr fs2 \<Rightarrow>
                       (case pad_spaces (if point_col fs2 = - 1 then 0 else nat (lmargin fs2)) fs2 of
                          Inl e \<Rightarrow> Inl e
                        | Inr fs3 \<Rightarrow> Inr (fs3\<lparr>point_col := to_ssize (lmargin fs3)\<rparr>)))))"

subsection \<open>\<^verbatim>\<open>__argp_fmtstream_update\<close>\<close>

text \<open>
  The labels of \<^verbatim>\<open>unilbrk.h\<close>, and what the stream's surroundings do during a call:
  \<open>linebreaks\<close> stands for \<^verbatim>\<open>ulc_width_linebreaks\<close>, which is not part of this
  file: from the bytes to classify, the width and the start column it gives a label
  for each byte and the column after the last one; \<open>lns_alloc\<close> says whether
  \<^verbatim>\<open>malloc (proc_len)\<close> succeeds; \<open>realloc_mem\<close> is \<open>None\<close> when
  \<^verbatim>\<open>realloc\<close> fails, else the bytes the added part of the block happens to hold.
\<close>

datatype brk =
  UC_BREAK_UNDEFINED | UC_BREAK_PROHIBITED | UC_BREAK_POSSIBLE
  | UC_BREAK_MANDATORY | UC_BREAK_HYPHENATION | UC_BREAK_CR_BEFORE_LF

record env =
  linebreaks :: "string \<Rightarrow> int \<Rightarrow> int \<Rightarrow> brk list \<times> int"
  lns_alloc :: bool
  realloc_mem :: "(nat \<Rightarrow> char) option"

text \<open>
  The body of the loop of truncate mode (lines 244-269). \<open>queue\<close> is the pointer
  computed on entry of \<^verbatim>\<open>__argp_fmtstream_update\<close>. The result says whether the loop
  goes on (\<^verbatim>\<open>continue\<close> and the end of the body) or the function returns.
\<close>

definition truncate_line :: "int \<Rightarrow> argp_fmtstream \<Rightarrow> fault + (bool \<times> argp_fmtstream)" where
  "truncate_line queue fs =
     (case memchr_fs fs (to_ssize (point_offs fs)) (to_size (rmargin fs - point_col fs)) of
        Inl e \<Rightarrow> Inl e
      | Inr (Some nl, fs1) \<Rightarrow>
          (case line_at_point (fs1\<lparr>point_offs := to_size (nl - queue)\<rparr>) None of
             Inl e \<Rightarrow> Inl e
           | Inr fs2 \<Rightarrow> Inr (True, fs2))
      | Inr (None, fs1) \<Rightarrow>
          (let fs2 = fs1\<lparr>point_offs :=
                       to_size (point_offs fs1 + to_size (rmargin fs1 - point_col fs1))\<rparr>
           in case memchr_fs fs2
                     (to_ssize (point_offs fs2) + to_ssize (rmargin fs2) - point_col fs2)
                     (to_size (p fs2 - point_offs fs2)) of
                Inl e \<Rightarrow> Inl e
              | Inr (None, fs3) \<Rightarrow>
                  (case poke (buf fs3) (to_ssize (point_offs fs3)) NL of
                     Inl e \<Rightarrow> Inl e
                   | Inr b \<Rightarrow>
                       (case line_at_point
                               (fs3\<lparr>buf := b,
                                    point_offs := to_size (point_offs fs3 + 1),
                                    p := to_ssize (to_size (point_offs fs3 + 1))\<rparr>) None of
                          Inl e \<Rightarrow> Inl e
                        | Inr fs4 \<Rightarrow> Inr (False, fs4)))
              | Inr (Some nl, fs3) \<Rightarrow>
                  (case poke (buf fs3) (to_ssize (point_offs fs3)) NL of
                     Inl e \<Rightarrow> Inl e
                   | Inr b \<Rightarrow>
                       (let po = to_size (point_offs fs3 + 1)
                        in case memmove b (to_ssize po) (nl + 1) (to_size (nl + 1 - po)) of
                             Inl e \<Rightarrow> Inl e
                           | Inr b' \<Rightarrow>
                               (case line_at_point (fs3\<lparr>buf := b', point_offs := po\<rparr>) None of
                                  Inl e \<Rightarrow> Inl e
                                | Inr fs4 \<Rightarrow> Inr (True, fs4))))))"

text \<open>
  The loop of truncate mode (line 242). It may run forever, so it takes fuel.
\<close>

fun truncate_lines :: "nat \<Rightarrow> int \<Rightarrow> argp_fmtstream \<Rightarrow> fault + argp_fmtstream" where
  "truncate_lines 0 queue fs =
     (if to_ssize (point_offs fs) < p fs then Inl FuelExhausted else Inr fs)"
| "truncate_lines (Suc k) queue fs =
     (if to_ssize (point_offs fs) < p fs then
        (case truncate_line queue fs of
           Inl e \<Rightarrow> Inl e
         | Inr (again, fs') \<Rightarrow> if again then truncate_lines k queue fs' else Inr fs')
      else Inr fs)"

text \<open>
  The loop of wrap mode (lines 281-300): its body for the label \<^verbatim>\<open>lns[i]\<close>, and one
  round for each label.
\<close>

definition wrap_break :: "brk \<Rightarrow> argp_fmtstream \<Rightarrow> fault + argp_fmtstream" where
  "wrap_break l fs =
     (if l = UC_BREAK_HYPHENATION then line_at_point fs (Some [CHR ''-'', NL])
      else if l = UC_BREAK_POSSIBLE then line_at_point fs (Some [NL])
      else if l = UC_BREAK_MANDATORY
        then line_at_point (fs\<lparr>point_offs := to_size (point_offs fs + 1)\<rparr>) None
      else Inr (fs\<lparr>point_offs := to_size (point_offs fs + 1)\<rparr>))"

primrec wrap_breaks :: "brk list \<Rightarrow> argp_fmtstream \<Rightarrow> fault + argp_fmtstream" where
  "wrap_breaks [] fs = Inr fs"
| "wrap_breaks (l # ls) fs =
     (case wrap_break l fs of
        Inl e \<Rightarrow> Inl e
      | Inr fs' \<Rightarrow> wrap_breaks ls fs')"

text \<open>
  \<^verbatim>\<open>__argp_fmtstream_update\<close>. The classifier reads the \<open>proc_len\<close> bytes at
  \<open>queue\<close> and labels each of them; a shorter list of labels is completed with
  \<open>UC_BREAK_UNDEFINED\<close>.
\<close>

definition fmtstream_update :: "nat \<Rightarrow> env \<Rightarrow> argp_fmtstream \<Rightarrow> fault + argp_fmtstream" where
  "fmtstream_update fuel ev fs =
     (let queue = to_ssize (point_offs fs);
          proc_len = to_size (p fs - queue)
      in if queue \<ge> p fs then Inr fs
         else if wmargin fs = - 1 then truncate_lines fuel queue fs
         else if \<not> lns_alloc ev then Inr fs
         else if \<not> in_buf (buf fs) queue proc_len then Inl OutOfBounds
         else
           (case linebreaks ev (bytes_at (buf fs) queue proc_len)
                   (to_int32 (to_size (rmargin fs - wmargin fs)))
                   (to_int32 (if point_col fs = - 1 then 0 else point_col fs)) of
              (lns, col) \<Rightarrow>
                (case wrap_breaks
                        (take (nat proc_len) (lns @ replicate (nat proc_len) UC_BREAK_UNDEFINED))
                        fs of
                   Inl e \<Rightarrow> Inl e
                 | Inr fs' \<Rightarrow> Inr (fs'\<lparr>point_col := col\<rparr>))))"

subsection \<open>\<^verbatim>\<open>__argp_fmtstream_ensure\<close>\<close>

text \<open>The growth of the buffer (lines 337-353).\<close>

definition grow_buffer :: "env \<Rightarrow> argp_fmtstream \<Rightarrow> int \<Rightarrow> bool \<times> argp_fmtstream" where
  "grow_buffer ev fs amount =
     (if to_size (buf_end fs) < amount then
        (let old_size = to_size (buf_end fs);
             new_size = to_size (old_size + amount)
         in if new_size < old_size then (False, fs\<lparr>enomem := True\<rparr>)
            else (case realloc_mem ev of
                    None \<Rightarrow> (False, fs\<lparr>enomem := True\<rparr>)
                  | Some g \<Rightarrow>
                      (True, fs\<lparr>buf := take (nat new_size) (buf fs)
                                         @ map g [length (buf fs)..<nat new_size],
                                 p := 0\<rparr>)))
      else (True, fs))"

definition fmtstream_ensure ::
  "nat \<Rightarrow> env \<Rightarrow> argp_fmtstream \<Rightarrow> int \<Rightarrow> fault + (bool \<times> argp_fmtstream)" where
  "fmtstream_ensure fuel ev fs amount =
     (if to_size (buf_end fs - p fs) < amount then
        (case fmtstream_update fuel ev fs of
           Inl e \<Rightarrow> Inl e
         | Inr fs1 \<Rightarrow>
             if \<not> in_buf (buf fs1) 0 (to_size (p fs1)) then Inl OutOfBounds
             else
               (case fwrite_unlocked fs1 (bytes_at (buf fs1) 0 (to_size (p fs1))) of
                  (w, fs2) \<Rightarrow>
                    (let wrote = to_ssize (int w)
                     in if wrote = p fs2
                        then Inr (grow_buffer ev (fs2\<lparr>p := 0, point_offs := 0\<rparr>) amount)
                        else
                          (let fs3 = fs2\<lparr>p := p fs2 - wrote,
                                         point_offs := to_size (point_offs fs2 - wrote)\<rparr>
                           in case memmove (buf fs3) 0 wrote (to_size (p fs3)) of
                                Inl e \<Rightarrow> Inl e
                              | Inr b \<Rightarrow> Inr (False, fs3\<lparr>buf := b\<rparr>)))))
      else Inr (True, fs))"

subsection \<open>\<^verbatim>\<open>__argp_fmtstream_printf\<close>\<close>

text \<open>
  \<^verbatim>\<open>__vsnprintf (s, avail, fmt, args)\<close>, \<open>txt\<close> the text the format expands to: at
  most \<open>avail - 1\<close> of its bytes and a terminating zero byte are written.
\<close>

definition vsnprintf :: "string \<Rightarrow> int \<Rightarrow> int \<Rightarrow> string \<Rightarrow> fault + string" where
  "vsnprintf b at avail txt =
     (if avail = 0 then Inr b
      else memcpy b at (take (nat (min (avail - 1) (int (length txt)))) txt @ [NUL]))"

text \<open>
  The loop of \<^verbatim>\<open>__argp_fmtstream_printf\<close>, with fuel for its rounds and \<open>ufuel\<close>
  for the calls of \<^verbatim>\<open>__argp_fmtstream_update\<close>. The result is the returned number
  and the stream.
\<close>

fun printf_loop ::
  "nat \<Rightarrow> nat \<Rightarrow> env \<Rightarrow> argp_fmtstream \<Rightarrow> string \<Rightarrow> int \<Rightarrow> fault + (int \<times> argp_fmtstream)" where
  "printf_loop 0 ufuel ev fs txt size_guess = Inl FuelExhausted"
| "printf_loop (Suc k) ufuel ev fs txt size_guess =
     (case fmtstream_ensure ufuel ev fs size_guess of
        Inl e \<Rightarrow> Inl e
      | Inr (ok, fs1) \<Rightarrow>
          if \<not> ok then Inr (- 1, fs1)
          else
            (let avail = to_size (buf_end fs1 - p fs1);
                 out = int (length txt)
             in case vsnprintf (buf fs1) (p fs1) avail txt of
                  Inl e \<Rightarrow> Inl e
                | Inr b \<Rightarrow>
                    if out \<ge> avail
                    then printf_loop k ufuel ev (fs1\<lparr>buf := b\<rparr>) txt (to_size (out + 1))
                    else Inr (out, fs1\<lparr>buf := b, p := p fs1 + out\<rparr>)))"

definition fmtstream_printf ::
  "nat \<Rightarrow> env \<Rightarrow> argp_fmtstream \<Rightarrow> string \<Rightarrow> fault + (int \<times> argp_fmtstream)" where
  "fmtstream_printf fuel ev fs txt = printf_loop fuel fuel ev fs txt PRINTF_SIZE_GUESS"

subsection \<open>\<^verbatim>\<open>__argp_fmtstream_free\<close>\<close>

text \<open>The result is what the sink has received when the stream is gone.\<close>

definition fmtstream_free :: "nat \<Rightarrow> env \<Rightarrow> argp_fmtstream \<Rightarrow> fault + string" where
  "fmtstream_free fuel ev fs =
     (case fmtstream_update fuel ev fs of
        Inl e \<Rightarrow> Inl e
      | Inr fs1 \<Rightarrow>
          if p fs1 > 0 then
            (if in_buf (buf fs1) 0 (to_size (p fs1))
             then Inr (sink (snd (fwrite_unlocked fs1 (bytes_at (buf fs1) 0 (to_size (p fs1))))))
             else Inl OutOfBounds)
          else Inr (sink fs1))"

subsection \<open>Runs of the public operations\<close>

text \<open>
  Surroundings in which every allocation succeeds and the classifier answers with the
  given labels and column.
\<close>

definition fixed_breaks :: "brk list \<Rightarrow> int \<Rightarrow> env" where
  "fixed_breaks lns col =
     \<lparr>linebreaks = (\<lambda>s width start_column. (lns, col)), lns_alloc = True,
      realloc_mem = Some (\<lambda>i. NUL)\<rparr>"

text \<open>
  Create a stream on a sink that takes every byte, the fresh buffer holding the bytes
  \<open>g\<close>, and append the text \<open>txt\<close> with \<^verbatim>\<open>__argp_fmtstream_printf\<close>.
\<close>

definition create_append ::
  "nat \<Rightarrow> env \<Rightarrow> (nat \<Rightarrow> char) \<Rightarrow> int \<Rightarrow> int \<Rightarrow> int \<Rightarrow> string
    \<Rightarrow> (fault + (int \<times> argp_fmtstream)) option" where
  "create_append fuel ev g lm rm wm txt =
     (case make_fmtstream True (Some g) [] lm rm wm of
        None \<Rightarrow> None
      | Some fs \<Rightarrow> Some (fmtstream_printf fuel ev fs txt))"

text \<open>The same, followed by \<^verbatim>\<open>__argp_fmtstream_free\<close>: what the sink has received.\<close>

definition create_append_destroy ::
  "nat \<Rightarrow> env \<Rightarrow> (nat \<Rightarrow> char) \<Rightarrow> int \<Rightarrow> int \<Rightarrow> int \<Rightarrow> string \<Rightarrow> (fault + string) option" where
  "create_append_destroy fuel ev g lm rm wm txt =
     (case create_append fuel ev g lm rm wm txt of
        Some (Inr (n, fs)) \<Rightarrow> Some (fmtstream_free fuel ev fs)
      | Some (Inl e) \<Rightarrow> Some (Inl e)
      | None \<Rightarrow> None)"

text \<open>
  A stream in wrap mode whose buffer of 200 bytes holds 199 bytes of text, the first
  six of them processed: a splice with the suffix \<^verbatim>\<open>"\n"\<close> needs two bytes and has
  room for one.
\<close>

definition nearly_full :: argp_fmtstream where
  "nearly_full =
     \<lparr>sink = [], accepts = [], lmargin = 0, rmargin = 300, wmargin = 1,
      point_offs = 6, point_col = 0,
      buf = ''a\<newline>b\<newline>cd '' @ replicate 192 (CHR ''x'') @ [NUL], p = 199,
      enomem = False, reads = []\<rparr>"

text \<open>The same stream on a sink that takes five bytes at its next write.\<close>

definition slow_sink :: argp_fmtstream where
  "slow_sink = nearly_full\<lparr>accepts := [5]\<rparr>"

text \<open>Surroundings in which \<^verbatim>\<open>realloc\<close> fails.\<close>

definition no_realloc :: env where
  "no_realloc = \<lparr>linebreaks = (\<lambda>s width start_column. ([], 0)), lns_alloc = True,
                  realloc_mem = None\<rparr>"

text \<open>
  Results on \<open>nearly_full\<close>: of a rewrite pass whose first label is a possible
  break, of one round of the loop of \<^verbatim>\<open>line_at_point\<close>, and of one such round with
  the point at offset 1, where no terminator stands in front of it.
\<close>

definition first_pass :: argp_fmtstream where
  "first_pass = projr (fmtstream_update 0 (fixed_breaks [UC_BREAK_POSSIBLE] 0) nearly_full)"

definition first_round :: argp_fmtstream where
  "first_round = projr (output_first_line 6 nearly_full)"

definition forced_round :: argp_fmtstream where
  "forced_round = projr (output_first_line 1 (nearly_full\<lparr>point_offs := 1\<rparr>))"

text \<open>
  The stream after create with left margin 0, right margin 5 and truncate mode and
  the append of \<^verbatim>\<open>"ab\n"\<close>; and the streams the loop of truncate mode then
  reaches: the terminator at offset 2 is found again in every round.
\<close>

definition line_appended :: argp_fmtstream where
  "line_appended =
     snd (projr (the (create_append 2 (fixed_breaks [] 0) (\<lambda>i. NUL) 0 5 (- 1) ''ab\<newline>'')))"

definition stuck :: "argp_fmtstream \<Rightarrow> bool" where
  "stuck s = (buf s = ''a\<newline>\<newline>'' @ replicate 197 NUL \<and> point_offs s = 2 \<and> p s = 3
      \<and> wmargin s = - 1 \<and> lmargin s = 0 \<and> rmargin s = 5 \<and> point_col s = 0)"

section \<open>Properties of the operations\<close>

text \<open>
  Conversions, what each operation leaves alone, and how the cursors move. The
  position of the point is compared with \<open>p\<close> as the code does it, through
  \<open>to_ssize (point_offs fs)\<close>.
\<close>

lemma to_size_id: "0 \<le> x \<Longrightarrow> x < 2 ^ 64 \<Longrightarrow> to_size x = x"
  by (simp add: to_size_def)

lemma to_size_range: "0 \<le> to_size x \<and> to_size x < 2 ^ 64"
  by (simp add: to_size_def)

lemma to_size_idem: "to_size (to_size x) = to_size x"
  by (simp add: to_size_def)

lemma to_size_diff_left: "to_size (to_size a - b) = to_size (a - b)"
  by (simp add: to_size_def mod_diff_left_eq)

lemma to_size_add_left: "to_size (to_size a + b) = to_size (a + b)"
  by (simp add: to_size_def mod_add_left_eq)

lemma to_ssize_id: "- (2 ^ 63) \<le> x \<Longrightarrow> x < 2 ^ 63 \<Longrightarrow> to_ssize x = x"
proof -
  assume a: "- (2 ^ 63) \<le> x" "x < 2 ^ 63"
  show ?thesis
  proof (cases "0 \<le> x")
    case True
    with a have "x mod 2 ^ 64 = x" by simp
    with a show ?thesis by (simp add: to_ssize_def)
  next
    case False
    with a have "(x + 2 ^ 64) mod 2 ^ 64 = x + 2 ^ 64"
      by (intro mod_pos_pos_trivial) auto
    then have "x mod 2 ^ 64 = x + 2 ^ 64" by simp
    with a False show ?thesis by (simp add: to_ssize_def)
  qed
qed

lemma to_ssize_range: "- (2 ^ 63) \<le> to_ssize x \<and> to_ssize x < 2 ^ 63"
proof -
  have "0 \<le> x mod 2 ^ 64" and "x mod 2 ^ 64 < 2 ^ 64"
    by simp_all
  then show ?thesis
    unfolding to_ssize_def by (simp del: pos_mod_sign pos_mod_bound)
qed

lemma to_ssize_cong: "x mod 2 ^ 64 = y mod 2 ^ 64 \<Longrightarrow> to_ssize x = to_ssize y"
  by (simp add: to_ssize_def)

lemma to_ssize_mod: "to_ssize x mod 2 ^ 64 = x mod 2 ^ 64"
  by (simp add: to_ssize_def)

lemma to_ssize_to_size: "to_ssize (to_size x) = to_ssize x"
  by (simp add: to_ssize_def to_size_def)

lemma to_ssize_add:
  assumes "- (2 ^ 63) \<le> to_ssize a + b" and "to_ssize a + b < 2 ^ 63"
  shows "to_ssize (a + b) = to_ssize a + b"
proof -
  have "(a + b) mod 2 ^ 64 = (to_ssize a + b) mod 2 ^ 64"
    using to_ssize_mod [of a] by (metis mod_add_left_eq)
  then have "to_ssize (a + b) = to_ssize (to_ssize a + b)"
    by (rule to_ssize_cong)
  with assms show ?thesis by (simp add: to_ssize_id)
qed

lemma to_ssize_size_add:
  assumes "- (2 ^ 63) \<le> to_ssize a + b" and "to_ssize a + b < 2 ^ 63"
  shows "to_ssize (to_size (a + b)) = to_ssize a + b"
  using assms by (simp add: to_ssize_to_size to_ssize_add)

definition unchanged :: "argp_fmtstream \<Rightarrow> argp_fmtstream \<Rightarrow> bool" where
  "unchanged s s' =
     (lmargin s' = lmargin s \<and> rmargin s' = rmargin s \<and> wmargin s' = wmargin s
      \<and> buf_end s' = buf_end s)"

lemma unchanged_refl: "unchanged s s"
  by (simp add: unchanged_def)

lemma unchanged_trans: "unchanged s t \<Longrightarrow> unchanged t u \<Longrightarrow> unchanged s u"
  by (simp add: unchanged_def)

lemma fwrite_unlocked_fields:
  "lmargin (snd (fwrite_unlocked s bs)) = lmargin s"
  "rmargin (snd (fwrite_unlocked s bs)) = rmargin s"
  "wmargin (snd (fwrite_unlocked s bs)) = wmargin s"
  "point_offs (snd (fwrite_unlocked s bs)) = point_offs s"
  "point_col (snd (fwrite_unlocked s bs)) = point_col s"
  "buf (snd (fwrite_unlocked s bs)) = buf s"
  "p (snd (fwrite_unlocked s bs)) = p s"
  "enomem (snd (fwrite_unlocked s bs)) = enomem s"
  "reads (snd (fwrite_unlocked s bs)) = reads s"
  by (simp_all add: fwrite_unlocked_def split: list.splits)

lemma putc_unlocked_fields:
  "lmargin (putc_unlocked s c) = lmargin s"
  "rmargin (putc_unlocked s c) = rmargin s"
  "wmargin (putc_unlocked s c) = wmargin s"
  "point_offs (putc_unlocked s c) = point_offs s"
  "point_col (putc_unlocked s c) = point_col s"
  "buf (putc_unlocked s c) = buf s"
  "p (putc_unlocked s c) = p s"
  "enomem (putc_unlocked s c) = enomem s"
  "reads (putc_unlocked s c) = reads s"
  by (simp_all add: putc_unlocked_def fwrite_unlocked_fields)

lemma memchr_fs_Inr:
  assumes "memchr_fs s a n = Inr (r, s')"
  shows "memchr (buf s) a NL n = Inr r \<and> s' = s\<lparr>reads := reads s @ examined a n r\<rparr>"
  using assms by (auto simp: memchr_fs_def split: sum.splits)

text \<open>What one round of the loop does, \<open>nl\<close> being the offset of the terminator.\<close>

lemma output_first_line_Inr:
  assumes "output_first_line q s = Inr s'"
  obtains nl b b' where
    "(memchr (buf s) 0 NL (point_offs s) = Inr (Some nl) \<and> b = buf s)
     \<or> (memchr (buf s) 0 NL (point_offs s) = Inr None \<and> nl = q - 1
        \<and> poke (buf s) (q - 1) NL = Inr b)"
    "memmove b 0 (nl + 1) (to_size (nl + 1)) = Inr b'"
    "p s' = p s - (nl + 1)"
    "point_offs s' = to_size (point_offs s - (nl + 1))"
    "point_col s' = point_col s"
    "lmargin s' = lmargin s" "rmargin s' = rmargin s" "wmargin s' = wmargin s"
    "buf s' = b'"
    "accepts s = [] \<longrightarrow> sink s' = sink s @ bytes_at b 0 nl @ [NL]"
proof -
  from assms obtain r s0 where m: "memchr_fs s 0 (point_offs s) = Inr (r, s0)"
    by (auto simp: output_first_line_def split: sum.splits)
  from memchr_fs_Inr [OF m] have mr: "memchr (buf s) 0 NL (point_offs s) = Inr r"
    and s0: "s0 = s\<lparr>reads := reads s @ examined 0 (point_offs s) r\<rparr>"
    by auto
  from assms m obtain nl b where
    nb: "(case r of
            Some a \<Rightarrow> Inr (a, buf s0)
          | None \<Rightarrow>
              (case poke (buf s0) (q - 1) NL of
                 Inl e \<Rightarrow> Inl e
               | Inr b \<Rightarrow> Inr (q - 1, b))) = Inr (nl, b)"
    and tl: "(let fs1 = s0\<lparr>buf := b\<rparr>;
                  fs2 = (if nl > 0 then snd (fwrite_unlocked fs1 (bytes_at b 0 nl)) else fs1);
                  fs3 = putc_unlocked fs2 NL
              in (case memmove b 0 (nl + 1) (to_size (nl + 1)) of
                    Inl e \<Rightarrow> Inl e
                  | Inr b' \<Rightarrow>
                      Inr (fs3\<lparr>buf := b',
                               p := p s - (nl + 1),
                               point_offs := to_size (point_offs s - (nl + 1))\<rparr>))) = Inr s'"
    by (simp add: output_first_line_def split: sum.splits prod.splits)
  define fs2 where "fs2 = (if nl > 0 then snd (fwrite_unlocked (s0\<lparr>buf := b\<rparr>) (bytes_at b 0 nl))
                           else s0\<lparr>buf := b\<rparr>)"
  from tl obtain b' where mv: "memmove b 0 (nl + 1) (to_size (nl + 1)) = Inr b'"
    and s': "s' = (putc_unlocked fs2 NL)\<lparr>buf := b', p := p s - (nl + 1),
                      point_offs := to_size (point_offs s - (nl + 1))\<rparr>"
    by (auto simp: Let_def fs2_def split: sum.splits)
  have c: "(memchr (buf s) 0 NL (point_offs s) = Inr (Some nl) \<and> b = buf s)
     \<or> (memchr (buf s) 0 NL (point_offs s) = Inr None \<and> nl = q - 1
        \<and> poke (buf s) (q - 1) NL = Inr b)"
    using nb mr s0 by (cases r) (auto split: sum.splits)
  have f2: "point_col fs2 = point_col s" "lmargin fs2 = lmargin s" "rmargin fs2 = rmargin s"
    "wmargin fs2 = wmargin s"
    by (simp_all add: fs2_def s0 fwrite_unlocked_fields)
  have snk: "sink (putc_unlocked fs2 NL) = sink s @ bytes_at b 0 nl @ [NL]" if "accepts s = []"
  proof (cases "nl > 0")
    case True
    with that show ?thesis
      by (simp add: fs2_def s0 putc_unlocked_def fwrite_unlocked_def)
  next
    case False
    then have "bytes_at b 0 nl = []" by (simp add: bytes_at_def)
    with False that show ?thesis
      by (simp add: fs2_def s0 putc_unlocked_def fwrite_unlocked_def)
  qed
  show thesis
    by (rule that [OF c mv]) (simp_all add: s' putc_unlocked_fields f2 snk)
qed

lemma output_first_line_effect:
  assumes "output_first_line q s = Inr s'"
  shows "\<exists>x. 1 \<le> x \<and> x \<le> buf_end s \<and> p s' = p s - x
           \<and> point_offs s' = to_size (point_offs s - x)
           \<and> point_col s' = point_col s \<and> unchanged s s'"
proof -
  from assms obtain nl b b' where
    c: "(memchr (buf s) 0 NL (point_offs s) = Inr (Some nl) \<and> b = buf s)
     \<or> (memchr (buf s) 0 NL (point_offs s) = Inr None \<and> nl = q - 1
        \<and> poke (buf s) (q - 1) NL = Inr b)"
    and mv: "memmove b 0 (nl + 1) (to_size (nl + 1)) = Inr b'"
    and s': "p s' = p s - (nl + 1)" "point_offs s' = to_size (point_offs s - (nl + 1))"
      "point_col s' = point_col s" "lmargin s' = lmargin s" "rmargin s' = rmargin s"
      "wmargin s' = wmargin s" "buf s' = b'"
    by (rule output_first_line_Inr)
  from c have nl: "0 \<le> nl \<and> nl < int (length (buf s)) \<and> length b = length (buf s)"
    using memchr_found_ge [of "buf s" 0 NL "point_offs s" nl]
    by (auto simp: poke_def split: if_splits)
  from mv have "length b' = length b" by (rule memmove_length)
  with nl s' show ?thesis
    by (intro exI [of _ "nl + 1"]) (simp add: unchanged_def buf_end_def)
qed

lemma reclaim_effect:
  assumes "reclaim sn q s = Inr s'"
  shows "\<exists>x. 0 \<le> x \<and> p s' = p s - x
           \<and> to_size (point_offs s') = to_size (point_offs s - x)
           \<and> (x = 0 \<or> 0 < p s' + to_ssize sn)
           \<and> (x = 0 \<or> buf_end s < p s + to_ssize sn)
           \<and> point_col s' = point_col s \<and> unchanged s s'"
  using assms
proof (induction sn q s rule: reclaim.induct)
  case (1 sn q s)
  show ?case
  proof (cases "p s + to_ssize sn > buf_end s")
    case False
    with "1.prems" have "s' = s" by (simp add: reclaim.simps [of sn q s])
    then show ?thesis by (auto simp: unchanged_refl intro!: exI [of _ 0])
  next
    case True
    with "1.prems" obtain t where t: "output_first_line q s = Inr t"
      and r: "reclaim sn q t = Inr s'"
      by (auto simp: reclaim.simps [of sn q s] split: sum.splits)
    from output_first_line_effect [OF t] obtain x1 where x1: "1 \<le> x1" "x1 \<le> buf_end s"
      "p t = p s - x1" "point_offs t = to_size (point_offs s - x1)"
      "point_col t = point_col s" "unchanged s t"
      by blast
    from "1.IH" [OF True t r] obtain x2 where x2: "0 \<le> x2" "p s' = p t - x2"
      "to_size (point_offs s') = to_size (point_offs t - x2)"
      "x2 = 0 \<or> 0 < p s' + to_ssize sn"
      "point_col s' = point_col t" "unchanged t s'"
      by blast
    have c1: "0 \<le> x1 + x2" using x1(1) x2(1) by linarith
    have c2: "p s' = p s - (x1 + x2)" using x1(3) x2(2) by linarith
    have "to_size (point_offs t - x2) = to_size (point_offs s - x1 - x2)"
      unfolding x1(4) by (rule to_size_diff_left)
    with x2(3) have c3: "to_size (point_offs s') = to_size (point_offs s - (x1 + x2))"
      by (simp add: algebra_simps)
    have c4: "0 < p s' + to_ssize sn"
    proof (cases "x2 = 0")
      case True
      with x2(2) x1(3) have "p s' = p s - x1" by simp
      with x1(2) \<open>p s + to_ssize sn > buf_end s\<close> show ?thesis by linarith
    next
      case False
      with x2(4) show ?thesis by simp
    qed
    have c6: "point_col s' = point_col s" using x1(5) x2(5) by simp
    have c7: "unchanged s s'" using x1(6) x2(6) by (rule unchanged_trans)
    show ?thesis
      using c1 c2 c3 c4 c6 c7 \<open>p s + to_ssize sn > buf_end s\<close> by blast
  qed
qed

lemma pad_spaces_effect:
  assumes "pad_spaces n s = Inr s'" and "buf_end s < 2 ^ 63"
  shows "p s' = p s \<and> point_col s' = point_col s \<and> unchanged s s'
         \<and> (if n = 0 then s' = s
             else 0 \<le> to_ssize (point_offs s)
                  \<and> to_ssize (point_offs s') = to_ssize (point_offs s) + int n
                  \<and> to_ssize (point_offs s') \<le> buf_end s)"
  using assms
proof (induction n arbitrary: s)
  case 0
  then show ?case by (simp add: unchanged_refl)
next
  case (Suc n)
  from Suc.prems obtain b where b: "poke (buf s) (to_ssize (point_offs s)) (CHR '' '') = Inr b"
    and r: "pad_spaces n (s\<lparr>buf := b, point_offs := to_size (point_offs s + 1)\<rparr>) = Inr s'"
    by (auto split: sum.splits)
  let ?t = "s\<lparr>buf := b, point_offs := to_size (point_offs s + 1)\<rparr>"
  from b have rng: "0 \<le> to_ssize (point_offs s)" "to_ssize (point_offs s) < buf_end s"
    and len: "length b = length (buf s)"
    by (auto simp: poke_def buf_end_def split: if_splits)
  have e: "buf_end ?t = buf_end s" using len by (simp add: buf_end_def)
  have st: "to_ssize (point_offs ?t) = to_ssize (point_offs s) + 1"
    using rng Suc.prems(2) by (simp add: to_ssize_size_add)
  have u: "unchanged s ?t" using e by (simp add: unchanged_def)
  have lt: "buf_end ?t < 2 ^ 63" using e Suc.prems(2) by simp
  from Suc.IH [OF r lt]
  have ih: "p s' = p ?t \<and> point_col s' = point_col ?t \<and> unchanged ?t s'
         \<and> (if n = 0 then s' = ?t
             else 0 \<le> to_ssize (point_offs ?t)
                  \<and> to_ssize (point_offs s') = to_ssize (point_offs ?t) + int n
                  \<and> to_ssize (point_offs s') \<le> buf_end ?t)"
    .
  show ?case
  proof (cases "n = 0")
    case True
    with ih have "s' = ?t" by simp
    with True rng st e u show ?thesis by simp
  next
    case False
    with ih have i1: "to_ssize (point_offs s') = to_ssize (point_offs ?t) + int n"
      and i2: "to_ssize (point_offs s') \<le> buf_end ?t"
      and i3: "p s' = p ?t" "point_col s' = point_col ?t" "unchanged ?t s'"
      by simp_all
    from i1 st have j1: "to_ssize (point_offs s') = to_ssize (point_offs s) + int (Suc n)"
      by simp
    from i2 e have j2: "to_ssize (point_offs s') \<le> buf_end s" by simp
    from i3 have j3: "p s' = p s" "point_col s' = point_col s" by simp_all
    have j4: "unchanged s s'" using u i3(3) by (rule unchanged_trans)
    from j1 j2 j3 j4 rng(1) show ?thesis by simp
  qed
qed

lemma pad_spaces_frame:
  "pad_spaces n s = Inr s' \<Longrightarrow> p s' = p s \<and> point_col s' = point_col s \<and> unchanged s s'"
proof (induction n arbitrary: s)
  case 0
  then show ?case by (simp add: unchanged_refl)
next
  case (Suc n)
  from Suc.prems obtain b where b: "poke (buf s) (to_ssize (point_offs s)) (CHR '' '') = Inr b"
    and r: "pad_spaces n (s\<lparr>buf := b, point_offs := to_size (point_offs s + 1)\<rparr>) = Inr s'"
    by (auto split: sum.splits)
  from b have "length b = length (buf s)" by (rule poke_length)
  then have "unchanged s (s\<lparr>buf := b, point_offs := to_size (point_offs s + 1)\<rparr>)"
    by (simp add: unchanged_def buf_end_def)
  with Suc.IH [OF r] show ?case
    by (auto intro: unchanged_trans)
qed

lemma line_at_point_Inr:
  assumes "line_at_point s suf = Inr s'"
  obtains s1 b s2 s3 where
    "reclaim (space_needed s suf) (to_ssize (point_offs s)) s = Inr s1"
    "memmove (buf s1) (to_ssize (point_offs s) + to_ssize (space_needed s suf))
       (to_ssize (point_offs s)) (to_size (p s1 - to_ssize (point_offs s))) = Inr b"
    "length (buf s2) = length (buf s1)" "p s2 = p s1" "point_col s2 = point_col s1"
    "lmargin s2 = lmargin s1" "rmargin s2 = rmargin s1" "wmargin s2 = wmargin s1"
    "point_offs s2 =
       (case suf of None \<Rightarrow> point_offs s1
        | Some x \<Rightarrow> to_size (point_offs s1 + int (length x)))"
    "pad_spaces (if point_col s2 = - 1 then 0 else nat (lmargin s2)) s2 = Inr s3"
    "s' = s3\<lparr>point_col := to_ssize (lmargin s3)\<rparr>"
proof -
  from assms obtain s1 where r: "reclaim (space_needed s suf) (to_ssize (point_offs s)) s = Inr s1"
    by (auto simp: line_at_point_def Let_def split: sum.splits)
  with assms obtain b where mv:
    "memmove (buf s1) (to_ssize (point_offs s) + to_ssize (space_needed s suf))
       (to_ssize (point_offs s)) (to_size (p s1 - to_ssize (point_offs s))) = Inr b"
    by (auto simp: line_at_point_def Let_def split: sum.splits)
  from assms r mv obtain s2 where
    s2: "(case suf of
            None \<Rightarrow> Inr (s1\<lparr>buf := b\<rparr>)
          | Some x \<Rightarrow>
              (case memcpy b (to_ssize (point_offs s)) x of
                 Inl e \<Rightarrow> Inl e
               | Inr b' \<Rightarrow>
                   Inr (s1\<lparr>buf := b',
                            point_offs := to_size (point_offs s1 + int (length x))\<rparr>))) = Inr s2"
    by (auto simp: line_at_point_def Let_def split: sum.splits)
  from assms r mv s2 obtain s3 where
    pd: "pad_spaces (if point_col s2 = - 1 then 0 else nat (lmargin s2)) s2 = Inr s3"
    and s': "s' = s3\<lparr>point_col := to_ssize (lmargin s3)\<rparr>"
    by (auto simp: line_at_point_def Let_def split: sum.splits)
  from mv have lb: "length b = length (buf s1)" by (rule memmove_length)
  have f: "length (buf s2) = length (buf s1) \<and> p s2 = p s1 \<and> point_col s2 = point_col s1
      \<and> lmargin s2 = lmargin s1 \<and> rmargin s2 = rmargin s1 \<and> wmargin s2 = wmargin s1
      \<and> point_offs s2 =
       (case suf of None \<Rightarrow> point_offs s1
        | Some x \<Rightarrow> to_size (point_offs s1 + int (length x)))"
  proof (cases suf)
    case None
    with s2 lb show ?thesis by auto
  next
    case (Some x)
    with s2 obtain b' where "memcpy b (to_ssize (point_offs s)) x = Inr b'"
      and "s2 = s1\<lparr>buf := b', point_offs := to_size (point_offs s1 + int (length x))\<rparr>"
      by (auto split: sum.splits)
    with lb Some memcpy_length [of b "to_ssize (point_offs s)" x b'] show ?thesis by auto
  qed
  show thesis
    by (rule that [OF r mv _ _ _ _ _ _ _ pd s']) (use f in auto)
qed

lemma line_at_point_frame:
  assumes "line_at_point s suf = Inr s'"
  shows "unchanged s s' \<and> p s' \<le> p s"
proof -
  from assms obtain s1 b s2 s3 where
    r: "reclaim (space_needed s suf) (to_ssize (point_offs s)) s = Inr s1"
    and f: "length (buf s2) = length (buf s1)" "p s2 = p s1"
      "lmargin s2 = lmargin s1" "rmargin s2 = rmargin s1" "wmargin s2 = wmargin s1"
    and pd: "pad_spaces (if point_col s2 = - 1 then 0 else nat (lmargin s2)) s2 = Inr s3"
    and s': "s' = s3\<lparr>point_col := to_ssize (lmargin s3)\<rparr>"
    by (rule line_at_point_Inr)
  from reclaim_effect [OF r] have a: "unchanged s s1" "p s1 \<le> p s" by auto
  from f have b: "unchanged s1 s2" by (simp add: unchanged_def buf_end_def)
  from pad_spaces_frame [OF pd] have c: "unchanged s2 s3" "p s3 = p s2" by auto
  from s' have d: "unchanged s3 s'" "p s' = p s3" by (simp_all add: unchanged_def buf_end_def)
  from a b c d f show ?thesis
    by (auto intro: unchanged_trans)
qed

lemma space_needed_signed:
  assumes "- (2 ^ 63) \<le> wmargin s" and "wmargin s < 2 ^ 60"
    and "len = (case suf of None \<Rightarrow> 0 | Some x \<Rightarrow> int (length x))" and "len \<le> 2"
  shows "to_ssize (space_needed s suf) = wmargin s + len"
proof -
  have "space_needed s suf = to_size (wmargin s + len)"
    using assms(3) by (cases suf) (simp_all add: space_needed_def to_size_add_left)
  then have "to_ssize (space_needed s suf) = to_ssize (wmargin s + len)"
    by (simp add: to_ssize_to_size)
  also have "\<dots> = wmargin s + len"
  proof (rule to_ssize_id)
    show "- (2 ^ 63) \<le> wmargin s + len"
      using assms(1,3) by (cases suf) simp_all
    show "wmargin s + len < 2 ^ 63"
      using assms(2,4) by simp
  qed
  finally show ?thesis .
qed

text \<open>
  The counters after a splice, as long as they stay far from the ends of the range of
  \<^verbatim>\<open>ssize_t\<close>: the point has moved ahead of \<open>p\<close> by the length of the suffix at
  least.
\<close>

lemma line_at_point_effect:
  assumes lap: "line_at_point s suf = Inr s'"
    and len: "len = (case suf of None \<Rightarrow> 0 | Some x \<Rightarrow> int (length x))" "len \<le> 2"
    and cap: "buf_end s < 2 ^ 60"
    and wm: "- (2 ^ 63) \<le> wmargin s" "wmargin s < 2 ^ 60"
    and up: "to_ssize (point_offs s) < 2 ^ 62"
    and lo: "- (2 ^ 61) \<le> to_ssize (point_offs s) - p s"
  shows "to_ssize (point_offs s) - p s + len \<le> to_ssize (point_offs s') - p s'"
    and "to_ssize (point_offs s') \<le> max (to_ssize (point_offs s) + len) (buf_end s)"
proof -
  from lap obtain s1 b s2 s3 where
    r: "reclaim (space_needed s suf) (to_ssize (point_offs s)) s = Inr s1"
    and f: "length (buf s2) = length (buf s1)" "p s2 = p s1" "point_col s2 = point_col s1"
    and po2: "point_offs s2 =
       (case suf of None \<Rightarrow> point_offs s1
        | Some x \<Rightarrow> to_size (point_offs s1 + int (length x)))"
    and pd: "pad_spaces (if point_col s2 = - 1 then 0 else nat (lmargin s2)) s2 = Inr s3"
    and s': "s' = s3\<lparr>point_col := to_ssize (lmargin s3)\<rparr>"
    by (rule line_at_point_Inr)
  have len0: "0 \<le> len" using len(1) by (cases suf) simp_all
  have ssn: "to_ssize (space_needed s suf) = wmargin s + len"
    using wm len by (rule space_needed_signed)
  from reclaim_effect [OF r] obtain x where x: "0 \<le> x" "p s1 = p s - x"
    "to_size (point_offs s1) = to_size (point_offs s - x)"
    "x = 0 \<or> 0 < p s1 + to_ssize (space_needed s suf)"
    "unchanged s s1"
    by blast
  define sg where "sg = to_ssize (point_offs s)"
  have sg_lo: "- (2 ^ 63) \<le> sg"
    using to_ssize_range [of "point_offs s"] by (simp add: sg_def)
  have lo1: "- (2 ^ 63) \<le> sg - x"
  proof (cases "x = 0")
    case True
    with sg_lo show ?thesis by simp
  next
    case False
    with x(4) ssn have "0 < p s1 + wmargin s + len" by simp
    with x(2) lo wm(2) len(2) show ?thesis unfolding sg_def by simp
  qed
  have "to_ssize (point_offs s1) = to_ssize (to_size (point_offs s1))"
    by (simp add: to_ssize_to_size)
  also have "\<dots> = to_ssize (point_offs s + (- x))"
    using x(3) by (simp add: to_ssize_to_size)
  also have "\<dots> = sg + (- x)"
    unfolding sg_def
    by (rule to_ssize_add) (use lo1 up x(1) in \<open>simp_all add: sg_def\<close>)
  finally have sg1: "to_ssize (point_offs s1) = sg - x" by simp
  have sg2: "to_ssize (point_offs s2) = sg - x + len"
  proof (cases suf)
    case None
    with po2 len(1) sg1 show ?thesis by simp
  next
    case (Some y)
    with po2 len(1) have "point_offs s2 = to_size (point_offs s1 + len)" by simp
    then have "to_ssize (point_offs s2) = to_ssize (point_offs s1) + len"
      using sg1 lo1 len0 len(2) up x(1)
      by (simp add: to_ssize_size_add sg_def)
    with sg1 show ?thesis by simp
  qed
  have e1: "buf_end s1 = buf_end s" using x(5) by (simp add: unchanged_def)
  have e2: "buf_end s2 = buf_end s" using f(1) e1 by (simp add: buf_end_def)
  have lt: "buf_end s2 < 2 ^ 63" using e2 cap by simp
  note pe = pad_spaces_effect [OF pd lt]
  note p3 = pe [THEN conjunct1]
  note alt = pe [THEN conjunct2, THEN conjunct2, THEN conjunct2]
  have sg3: "sg - x + len \<le> to_ssize (point_offs s3)
      \<and> to_ssize (point_offs s3) \<le> max (sg - x + len) (buf_end s)"
  proof (cases "(if point_col s2 = - 1 then 0 else nat (lmargin s2)) = 0")
    case True
    with alt have "s3 = s2" by simp
    with sg2 show ?thesis by simp
  next
    case False
    with alt have "to_ssize (point_offs s3) = to_ssize (point_offs s2)
                       + int (if point_col s2 = - 1 then 0 else nat (lmargin s2))"
      and "to_ssize (point_offs s3) \<le> buf_end s2"
      by simp_all
    with sg2 e2 show ?thesis by simp
  qed
  have q: "point_offs s' = point_offs s3" "p s' = p s - x"
    using s' p3 f(2) x(2) by simp_all
  show "to_ssize (point_offs s) - p s + len \<le> to_ssize (point_offs s') - p s'"
    using sg3 q by (simp add: sg_def)
  show "to_ssize (point_offs s') \<le> max (to_ssize (point_offs s) + len) (buf_end s)"
    using sg3 q x(1) by (simp add: sg_def max_def split: if_splits)
qed

lemma wrap_break_effect:
  assumes st: "wrap_break l s = Inr t"
    and cap: "buf_end s < 2 ^ 60"
    and wm: "- (2 ^ 63) \<le> wmargin s" "wmargin s < 2 ^ 60"
    and lo: "- (2 ^ 61) \<le> to_ssize (point_offs s) - p s"
    and up: "to_ssize (point_offs s) + 2 < 2 ^ 62"
  shows "unchanged s t"
    and "to_ssize (point_offs s) - p s + 1 \<le> to_ssize (point_offs t) - p t"
    and "to_ssize (point_offs t) \<le> max (to_ssize (point_offs s) + 2) (buf_end s)"
proof -
  define s1 where "s1 = s\<lparr>point_offs := to_size (point_offs s + 1)\<rparr>"
  have sg1: "to_ssize (point_offs s1) = to_ssize (point_offs s) + 1"
    unfolding s1_def using up to_ssize_range [of "point_offs s"]
    by (simp add: to_ssize_size_add)
  have f1: "unchanged s s1" "p s1 = p s" "buf_end s1 = buf_end s" "wmargin s1 = wmargin s"
    by (simp_all add: s1_def unchanged_def buf_end_def)
  consider (hyph) "l = UC_BREAK_HYPHENATION"
    | (poss) "l = UC_BREAK_POSSIBLE"
    | (mand) "l = UC_BREAK_MANDATORY"
    | (other) "l \<noteq> UC_BREAK_HYPHENATION" "l \<noteq> UC_BREAK_POSSIBLE" "l \<noteq> UC_BREAK_MANDATORY"
    by blast
  then have "unchanged s t
    \<and> to_ssize (point_offs s) - p s + 1 \<le> to_ssize (point_offs t) - p t
    \<and> to_ssize (point_offs t) \<le> max (to_ssize (point_offs s) + 2) (buf_end s)"
  proof cases
    case hyph
    with st have lap: "line_at_point s (Some [CHR ''-'', NL]) = Inr t"
      by (simp add: wrap_break_def)
    have u: "to_ssize (point_offs s) < 2 ^ 62" using up by simp
    from line_at_point_effect [OF lap _ _ cap wm u lo, of 2] line_at_point_frame [OF lap]
    show ?thesis by simp
  next
    case poss
    with st have lap: "line_at_point s (Some [NL]) = Inr t"
      by (simp add: wrap_break_def)
    have u: "to_ssize (point_offs s) < 2 ^ 62" using up by simp
    from line_at_point_effect [OF lap _ _ cap wm u lo, of 1] line_at_point_frame [OF lap]
    show ?thesis by (simp add: max_def split: if_splits)
  next
    case mand
    with st have lap: "line_at_point s1 None = Inr t"
      by (simp add: wrap_break_def s1_def)
    have c1: "buf_end s1 < 2 ^ 60" using cap f1 by simp
    have w1: "- (2 ^ 63) \<le> wmargin s1" "wmargin s1 < 2 ^ 60" using wm f1 by simp_all
    have u: "to_ssize (point_offs s1) < 2 ^ 62" using up sg1 by simp
    have l1: "- (2 ^ 61) \<le> to_ssize (point_offs s1) - p s1" using lo sg1 f1 by simp
    from line_at_point_effect [OF lap _ _ c1 w1 u l1, of 0] line_at_point_frame [OF lap]
    have "unchanged s1 t" and "to_ssize (point_offs s1) - p s1 \<le> to_ssize (point_offs t) - p t"
      and "to_ssize (point_offs t) \<le> max (to_ssize (point_offs s1)) (buf_end s1)"
      by simp_all
    with sg1 f1 unchanged_trans [OF f1(1)] show ?thesis
      by (simp add: max_def split: if_splits)
  next
    case other
    with st have "t = s1" by (simp add: wrap_break_def s1_def)
    with sg1 f1 show ?thesis by simp
  qed
  then show "unchanged s t"
    and "to_ssize (point_offs s) - p s + 1 \<le> to_ssize (point_offs t) - p t"
    and "to_ssize (point_offs t) \<le> max (to_ssize (point_offs s) + 2) (buf_end s)"
    by simp_all
qed

lemma wrap_breaks_effect:
  assumes "wrap_breaks ls s = Inr s'"
    and "buf_end s < 2 ^ 60"
    and "- (2 ^ 63) \<le> wmargin s" and "wmargin s < 2 ^ 60"
    and "- (2 ^ 61) \<le> to_ssize (point_offs s) - p s"
    and "max (to_ssize (point_offs s)) (buf_end s) + 2 * int (length ls) < 2 ^ 62"
  shows "unchanged s s'
    \<and> to_ssize (point_offs s) - p s + int (length ls) \<le> to_ssize (point_offs s') - p s'"
  using assms
proof (induction ls arbitrary: s)
  case Nil
  then show ?case by (simp add: unchanged_refl)
next
  case (Cons l ls)
  from Cons.prems(1) obtain t where st: "wrap_break l s = Inr t"
    and rest: "wrap_breaks ls t = Inr s'"
    by (auto split: sum.splits)
  have up: "to_ssize (point_offs s) + 2 < 2 ^ 62"
    using Cons.prems(6) by simp
  note e = wrap_break_effect [OF st Cons.prems(2,3,4,5) up]
  from e(1) have f: "buf_end t = buf_end s" "wmargin t = wmargin s"
    by (simp_all add: unchanged_def)
  have h2: "buf_end t < 2 ^ 60" using f Cons.prems(2) by simp
  have h3: "- (2 ^ 63) \<le> wmargin t" using f Cons.prems(3) by simp
  have h4: "wmargin t < 2 ^ 60" using f Cons.prems(4) by simp
  have h5: "- (2 ^ 61) \<le> to_ssize (point_offs t) - p t"
    using e(2) Cons.prems(5) by simp
  have h6: "max (to_ssize (point_offs t)) (buf_end t) + 2 * int (length ls) < 2 ^ 62"
    using e(3) f Cons.prems(6) by (simp add: max_def split: if_splits)
  from Cons.IH [OF rest h2 h3 h4 h5 h6] e(1,2) show ?case
    by (auto intro: unchanged_trans)
qed

lemma line_at_point_last_line:
  assumes lap: "line_at_point s None = Inr s'"
    and wm: "wmargin s = - 1"
    and ps: "p s = to_ssize (point_offs s)" "p s \<le> buf_end s"
    and cap: "buf_end s < 2 ^ 63"
  shows "p s' \<le> to_ssize (point_offs s')"
proof -
  from lap obtain s1 b s2 s3 where
    r: "reclaim (space_needed s None) (to_ssize (point_offs s)) s = Inr s1"
    and f: "length (buf s2) = length (buf s1)" "p s2 = p s1"
    and po2: "point_offs s2 = (case None :: string option of None \<Rightarrow> point_offs s1
        | Some x \<Rightarrow> to_size (point_offs s1 + int (length x)))"
    and pd: "pad_spaces (if point_col s2 = - 1 then 0 else nat (lmargin s2)) s2 = Inr s3"
    and s': "s' = s3\<lparr>point_col := to_ssize (lmargin s3)\<rparr>"
    by (rule line_at_point_Inr)
  have ssn: "to_ssize (space_needed s None) = - 1"
    using wm by (simp add: space_needed_def to_size_def to_ssize_def)
  from reclaim_effect [OF r] obtain x where x: "0 \<le> x" "p s1 = p s - x"
    "to_size (point_offs s1) = to_size (point_offs s - x)"
    "x = 0 \<or> buf_end s < p s + to_ssize (space_needed s None)"
    "unchanged s s1"
    by blast
  from x(4) ssn ps(2) have x0: "x = 0" by simp
  with x have p1: "p s1 = p s" and "to_size (point_offs s1) = to_size (point_offs s)"
    by simp_all
  then have sg1: "to_ssize (point_offs s1) = to_ssize (point_offs s)"
    by (metis to_ssize_to_size)
  have e2: "buf_end s2 = buf_end s"
    using f(1) x(5) by (simp add: buf_end_def unchanged_def)
  have lt: "buf_end s2 < 2 ^ 63" using e2 cap by simp
  note pe = pad_spaces_effect [OF pd lt]
  note p3 = pe [THEN conjunct1]
  note alt = pe [THEN conjunct2, THEN conjunct2, THEN conjunct2]
  have "to_ssize (point_offs s2) \<le> to_ssize (point_offs s3)"
  proof (cases "(if point_col s2 = - 1 then 0 else nat (lmargin s2)) = 0")
    case True
    with alt show ?thesis by simp
  next
    case False
    with alt have "to_ssize (point_offs s3) = to_ssize (point_offs s2)
                       + int (if point_col s2 = - 1 then 0 else nat (lmargin s2))"
      by simp
    then show ?thesis by simp
  qed
  with po2 sg1 p3 f(2) p1 ps(1) s' show ?thesis by simp
qed

lemma truncate_line_effect:
  assumes tl: "truncate_line q s = Inr (again, s')"
    and wm: "wmargin s = - 1" and cap: "buf_end s < 2 ^ 63"
  shows "unchanged s s' \<and> (again \<or> p s' \<le> to_ssize (point_offs s'))"
proof -
  from tl obtain r s1 where
    m1: "memchr_fs s (to_ssize (point_offs s)) (to_size (rmargin s - point_col s)) = Inr (r, s1)"
    by (auto simp: truncate_line_def split: sum.splits)
  from memchr_fs_Inr [OF m1] have s1: "s1 = s\<lparr>reads := reads s
      @ examined (to_ssize (point_offs s)) (to_size (rmargin s - point_col s)) r\<rparr>"
    by simp
  have u1: "unchanged s s1" by (simp add: s1 unchanged_def buf_end_def)
  show ?thesis
  proof (cases r)
    case (Some nl)
    with m1 tl have lap: "line_at_point (s1\<lparr>point_offs := to_size (nl - q)\<rparr>) None = Inr s'"
      and ag: "again"
      by (auto simp: truncate_line_def split: sum.splits)
    have u2: "unchanged s1 (s1\<lparr>point_offs := to_size (nl - q)\<rparr>)"
      by (simp add: unchanged_def buf_end_def)
    from line_at_point_frame [OF lap] have "unchanged (s1\<lparr>point_offs := to_size (nl - q)\<rparr>) s'"
      by simp
    with u1 u2 ag show ?thesis by (blast intro: unchanged_trans)
  next
    case None
    define fs2 where "fs2 = s1\<lparr>point_offs :=
                        to_size (point_offs s1 + to_size (rmargin s1 - point_col s1))\<rparr>"
    from None m1 tl have tl2:
      "(case memchr_fs fs2
                     (to_ssize (point_offs fs2) + to_ssize (rmargin fs2) - point_col fs2)
                     (to_size (p fs2 - point_offs fs2)) of
                Inl e \<Rightarrow> Inl e
              | Inr (None, fs3) \<Rightarrow>
                  (case poke (buf fs3) (to_ssize (point_offs fs3)) NL of
                     Inl e \<Rightarrow> Inl e
                   | Inr b \<Rightarrow>
                       (case line_at_point
                               (fs3\<lparr>buf := b,
                                    point_offs := to_size (point_offs fs3 + 1),
                                    p := to_ssize (to_size (point_offs fs3 + 1))\<rparr>) None of
                          Inl e \<Rightarrow> Inl e
                        | Inr fs4 \<Rightarrow> Inr (False, fs4)))
              | Inr (Some nl, fs3) \<Rightarrow>
                  (case poke (buf fs3) (to_ssize (point_offs fs3)) NL of
                     Inl e \<Rightarrow> Inl e
                   | Inr b \<Rightarrow>
                       (let po = to_size (point_offs fs3 + 1)
                        in case memmove b (to_ssize po) (nl + 1) (to_size (nl + 1 - po)) of
                             Inl e \<Rightarrow> Inl e
                           | Inr b' \<Rightarrow>
                               (case line_at_point (fs3\<lparr>buf := b', point_offs := po\<rparr>) None of
                                  Inl e \<Rightarrow> Inl e
                                | Inr fs4 \<Rightarrow> Inr (True, fs4))))) = Inr (again, s')"
      unfolding truncate_line_def fs2_def Let_def by simp
    then obtain r2 s3 where
      m2: "memchr_fs fs2
             (to_ssize (point_offs fs2) + to_ssize (rmargin fs2) - point_col fs2)
             (to_size (p fs2 - point_offs fs2)) = Inr (r2, s3)"
      by (auto split: sum.splits)
    from memchr_fs_Inr [OF m2] have s3: "s3 = fs2\<lparr>reads := reads fs2
      @ examined (to_ssize (point_offs fs2) + to_ssize (rmargin fs2) - point_col fs2)
          (to_size (p fs2 - point_offs fs2)) r2\<rparr>"
      by simp
    have u3: "unchanged s s3"
      by (simp add: s3 fs2_def s1 unchanged_def buf_end_def)
    from tl2 m2 obtain b where
      pk: "poke (buf s3) (to_ssize (point_offs s3)) NL = Inr b"
      by (cases r2) (auto split: sum.splits)
    from pk have rng: "0 \<le> to_ssize (point_offs s3)" "to_ssize (point_offs s3) < buf_end s3"
      and lb: "length b = length (buf s3)"
      by (auto simp: poke_def buf_end_def split: if_splits)
    have e3: "buf_end s3 = buf_end s" using u3 by (simp add: unchanged_def)
    have sg: "to_ssize (to_size (point_offs s3 + 1)) = to_ssize (point_offs s3) + 1"
      using rng e3 cap by (simp add: to_ssize_size_add)
    show ?thesis
    proof (cases r2)
      case r2: None
      define s4 where "s4 = s3\<lparr>buf := b,
                               point_offs := to_size (point_offs s3 + 1),
                               p := to_ssize (to_size (point_offs s3 + 1))\<rparr>"
      from r2 tl2 m2 pk have lap: "line_at_point s4 None = Inr s'"
        by (auto simp: s4_def split: sum.splits)
      have u4: "unchanged s3 s4" using lb by (simp add: s4_def unchanged_def buf_end_def)
      have u: "unchanged s s4" using u3 u4 by (rule unchanged_trans)
      have a: "wmargin s4 = - 1" "buf_end s4 < 2 ^ 63"
        using u wm cap by (simp_all add: unchanged_def)
      have b1: "p s4 = to_ssize (point_offs s4)" by (simp add: s4_def)
      have b2: "p s4 \<le> buf_end s4"
        using sg rng lb by (simp add: s4_def buf_end_def)
      from line_at_point_last_line [OF lap a(1) b1 b2 a(2)] line_at_point_frame [OF lap] u
      show ?thesis by (auto intro: unchanged_trans)
    next
      case r2: (Some nl)
      define po where "po = to_size (point_offs s3 + 1)"
      from r2 tl2 m2 pk obtain b' where
        mv: "memmove b (to_ssize po) (nl + 1) (to_size (nl + 1 - po)) = Inr b'"
        and lap: "line_at_point (s3\<lparr>buf := b', point_offs := po\<rparr>) None = Inr s'"
        and ag: "again"
        by (auto simp: Let_def po_def split: sum.splits)
      from mv have "length b' = length b" by (rule memmove_length)
      with lb have u4: "unchanged s3 (s3\<lparr>buf := b', point_offs := po\<rparr>)"
        by (simp add: unchanged_def buf_end_def)
      from line_at_point_frame [OF lap] have u5: "unchanged (s3\<lparr>buf := b', point_offs := po\<rparr>) s'"
        by simp
      from u3 u4 u5 ag show ?thesis by (blast intro: unchanged_trans)
    qed
  qed
qed

lemma truncate_lines_effect:
  assumes "truncate_lines fuel q s = Inr s'" and "wmargin s = - 1" and "buf_end s < 2 ^ 63"
  shows "unchanged s s' \<and> p s' \<le> to_ssize (point_offs s')"
  using assms
proof (induction fuel arbitrary: s)
  case 0
  then show ?case by (auto simp: unchanged_refl split: if_splits)
next
  case (Suc k)
  show ?case
  proof (cases "to_ssize (point_offs s) < p s")
    case False
    with Suc.prems(1) show ?thesis by (simp add: unchanged_refl)
  next
    case True
    with Suc.prems(1) obtain again t where
      tl: "truncate_line q s = Inr (again, t)"
      and rest: "(if again then truncate_lines k q t else Inr t) = Inr s'"
      by (auto split: sum.splits)
    note e = truncate_line_effect [OF tl Suc.prems(2,3)]
    show ?thesis
    proof (cases again)
      case True
      from e have "wmargin t = - 1" "buf_end t < 2 ^ 63"
        using Suc.prems(2,3) by (simp_all add: unchanged_def)
      from Suc.IH [OF _ this] rest True e show ?thesis
        by (auto intro: unchanged_trans)
    next
      case False
      with rest e show ?thesis by simp
    qed
  qed
qed

lemma wrap_break_frame:
  assumes st: "wrap_break l s = Inr t"
  shows "unchanged s t"
proof -
  define s1 where "s1 = s\<lparr>point_offs := to_size (point_offs s + 1)\<rparr>"
  have u: "unchanged s s1"
    by (simp add: s1_def unchanged_def buf_end_def)
  consider (hyph) "l = UC_BREAK_HYPHENATION"
    | (poss) "l = UC_BREAK_POSSIBLE"
    | (mand) "l = UC_BREAK_MANDATORY"
    | (other) "l \<noteq> UC_BREAK_HYPHENATION" "l \<noteq> UC_BREAK_POSSIBLE" "l \<noteq> UC_BREAK_MANDATORY"
    by blast
  then show ?thesis
  proof cases
    case hyph
    with st have lap: "line_at_point s (Some [CHR ''-'', NL]) = Inr t"
      by (simp add: wrap_break_def)
    from line_at_point_frame [OF lap] show ?thesis by (rule conjunct1)
  next
    case poss
    with st have lap: "line_at_point s (Some [NL]) = Inr t"
      by (simp add: wrap_break_def)
    from line_at_point_frame [OF lap] show ?thesis by (rule conjunct1)
  next
    case mand
    with st have lap: "line_at_point s1 None = Inr t"
      by (simp add: wrap_break_def s1_def)
    from line_at_point_frame [OF lap] have "unchanged s1 t" by (rule conjunct1)
    with u show ?thesis by (rule unchanged_trans)
  next
    case other
    with st have "t = s1" by (simp add: wrap_break_def s1_def)
    with u show ?thesis by simp
  qed
qed

lemma wrap_breaks_frame:
  "wrap_breaks ls s = Inr s' \<Longrightarrow> unchanged s s'"
proof (induction ls arbitrary: s)
  case Nil
  then show ?case by (simp add: unchanged_refl)
next
  case (Cons l ls)
  from Cons.prems obtain t where st: "wrap_break l s = Inr t"
    and rest: "wrap_breaks ls t = Inr s'"
    by (auto split: sum.splits)
  from wrap_break_frame [OF st] Cons.IH [OF rest] show ?case
    by (rule unchanged_trans)
qed

lemma update_cases:
  assumes "fmtstream_update fuel ev s = Inr s'"
  obtains (finished) "p s \<le> to_ssize (point_offs s)" "s' = s"
    | (trunc) "to_ssize (point_offs s) < p s" "wmargin s = - 1"
        "truncate_lines fuel (to_ssize (point_offs s)) s = Inr s'"
    | (nomem) "to_ssize (point_offs s) < p s" "wmargin s \<noteq> - 1" "\<not> lns_alloc ev" "s' = s"
    | (wrap) lns col t where "to_ssize (point_offs s) < p s" "wmargin s \<noteq> - 1" "lns_alloc ev"
        "in_buf (buf s) (to_ssize (point_offs s)) (to_size (p s - to_ssize (point_offs s)))"
        "wrap_breaks (take (nat (to_size (p s - to_ssize (point_offs s))))
            (lns @ replicate (nat (to_size (p s - to_ssize (point_offs s)))) UC_BREAK_UNDEFINED)) s
          = Inr t"
        "s' = t\<lparr>point_col := col\<rparr>"
proof -
  define q where "q = to_ssize (point_offs s)"
  define n where "n = to_size (p s - q)"
  consider (a) "p s \<le> q"
    | (b) "q < p s" "wmargin s = - 1"
    | (c) "q < p s" "wmargin s \<noteq> - 1" "\<not> lns_alloc ev"
    | (d) "q < p s" "wmargin s \<noteq> - 1" "lns_alloc ev"
    by fastforce
  then show thesis
  proof cases
    case a
    with assms have "s' = s" by (simp add: fmtstream_update_def q_def)
    with a show thesis by (intro finished) (simp_all add: q_def)
  next
    case b
    with assms have "truncate_lines fuel q s = Inr s'"
      by (simp add: fmtstream_update_def q_def)
    with b show thesis by (intro trunc) (simp_all add: q_def)
  next
    case c
    with assms have "s' = s" by (simp add: fmtstream_update_def q_def)
    with c show thesis by (intro nomem) (simp_all add: q_def)
  next
    case d
    with assms have ib: "in_buf (buf s) q n"
      by (simp add: fmtstream_update_def q_def n_def Let_def split: if_splits)
    obtain lns col where lb: "linebreaks ev (bytes_at (buf s) q n)
                   (to_int32 (to_size (rmargin s - wmargin s)))
                   (to_int32 (if point_col s = - 1 then 0 else point_col s)) = (lns, col)"
      by (rule prod.exhaust)
    with assms d ib obtain t where
      wb: "wrap_breaks (take (nat n) (lns @ replicate (nat n) UC_BREAK_UNDEFINED)) s = Inr t"
      and s': "s' = t\<lparr>point_col := col\<rparr>"
      by (auto simp: fmtstream_update_def q_def n_def Let_def split: sum.splits)
    show thesis
      by (rule wrap [of lns t col]) (use d ib wb s' in \<open>simp_all add: q_def n_def\<close>)
  qed
qed

lemma update_frame:
  assumes "fmtstream_update fuel ev s = Inr s'" and "buf_end s < 2 ^ 63"
  shows "unchanged s s'"
  using assms(1)
proof (cases rule: update_cases)
  case finished
  then show ?thesis by (simp add: unchanged_refl)
next
  case trunc
  from truncate_lines_effect [OF trunc(3) trunc(2) assms(2)] show ?thesis by simp
next
  case nomem
  then show ?thesis by (simp add: unchanged_refl)
next
  case (wrap lns col t)
  from wrap_breaks_frame [OF wrap(5)] wrap(6) show ?thesis
    by (simp add: unchanged_def buf_end_def)
qed

lemma update_returns_at_once:
  "p s \<le> to_ssize (point_offs s) \<Longrightarrow> fmtstream_update fuel ev s = Inr s"
  by (simp add: fmtstream_update_def)

lemma grow_buffer_cases:
  assumes am: "0 \<le> amount" "amount < 2 ^ 64" and cap: "buf_end s < 2 ^ 63"
  shows "grow_buffer ev s amount =
     (if buf_end s < amount then
        (if 2 ^ 64 \<le> buf_end s + amount \<or> realloc_mem ev = None
         then (False, s\<lparr>enomem := True\<rparr>)
         else (True, s\<lparr>buf := buf s @ map (the (realloc_mem ev))
                                      [length (buf s)..<nat (buf_end s + amount)],
                         p := 0\<rparr>))
      else (True, s))"
proof -
  have c0: "0 \<le> buf_end s" by (simp add: buf_end_def)
  have old: "to_size (buf_end s) = buf_end s"
    using c0 cap by (intro to_size_id) simp_all
  show ?thesis
  proof (cases "buf_end s < amount")
    case False
    then show ?thesis by (simp add: grow_buffer_def old)
  next
    case True
    show ?thesis
    proof (cases "2 ^ 64 \<le> buf_end s + amount")
      case over: True
      have "to_size (buf_end s + amount) = buf_end s + amount - 2 ^ 64"
      proof -
        have "(buf_end s + amount - 2 ^ 64) mod 2 ^ 64 = buf_end s + amount - 2 ^ 64"
          using over am cap by (intro mod_pos_pos_trivial) simp_all
        then show ?thesis by (simp add: to_size_def)
      qed
      with am have "to_size (buf_end s + amount) < buf_end s" by simp
      with True over show ?thesis by (simp add: grow_buffer_def old Let_def)
    next
      case fits: False
      then have new: "to_size (buf_end s + amount) = buf_end s + amount"
        using c0 am by (intro to_size_id) simp_all
      have "take (nat (buf_end s + amount)) (buf s) = buf s"
        using am by (simp add: buf_end_def)
      with True fits new am show ?thesis
        by (cases "realloc_mem ev") (simp_all add: grow_buffer_def old Let_def)
    qed
  qed
qed

lemma takeWhile_prefix:
  assumes "length (takeWhile P (take n xs)) < length (take n xs)"
  shows "takeWhile P (take n xs) = takeWhile P xs"
proof -
  have "\<not> (\<forall>x\<in>set (take n xs). P x)"
  proof
    assume "\<forall>x\<in>set (take n xs). P x"
    then have "takeWhile P (take n xs) = take n xs"
      by (simp add: takeWhile_eq_all_conv)
    with assms show False by simp
  qed
  then obtain x where "x \<in> set (take n xs)" and "\<not> P x"
    by blast
  then have "takeWhile P (take n xs @ drop n xs) = takeWhile P (take n xs)"
    by (rule takeWhile_append1)
  then show ?thesis by simp
qed

lemma memchr_start_Some:
  assumes "memchr b 0 c n = Inr (Some a)"
  shows "a = int (length (takeWhile (\<lambda>x. x \<noteq> c) b)) \<and> a < n \<and> a < int (length b)
         \<and> b ! nat a = c \<and> c \<in> set (take (nat n) b)"
proof -
  define w where "w = take (nat (min n (int (length b)))) b"
  define k where "k = length (takeWhile (\<lambda>x. x \<noteq> c) w)"
  from assms have n0: "n \<noteq> 0" and kw: "k < length w" and a: "a = int k"
    by (auto simp: memchr_def Let_def w_def k_def split: if_splits)
  from kw have tw: "takeWhile (\<lambda>x. x \<noteq> c) w = takeWhile (\<lambda>x. x \<noteq> c) b"
    unfolding k_def w_def by (rule takeWhile_prefix)
  then have k: "k = length (takeWhile (\<lambda>x. x \<noteq> c) b)" by (simp add: k_def)
  from kw have "0 < length w" by linarith
  then have npos: "0 < n" by (simp add: w_def)
  have lw: "length w \<le> length b" "int (length w) \<le> n"
    using npos by (simp_all add: w_def)
  from kw have "\<not> (w ! k \<noteq> c)"
    unfolding k_def by (rule nth_length_takeWhile)
  then have wk: "w ! k = c" by simp
  have "w ! k = b ! k" using kw by (simp add: w_def)
  with wk have bk: "b ! k = c" by simp
  have "w ! k \<in> set w" using kw by simp
  with wk have "c \<in> set w" by simp
  moreover have "set w \<subseteq> set (take (nat n) b)"
    unfolding w_def by (rule set_take_subset_set_take) simp
  ultimately have "c \<in> set (take (nat n) b)" by blast
  with a k kw lw bk show ?thesis by simp
qed

lemma memchr_start_None:
  assumes "memchr b 0 c n = Inr None"
  shows "c \<notin> set (take (nat n) b)"
proof (cases "n \<le> 0")
  case True
  then show ?thesis by simp
next
  case False
  define w where "w = take (nat (min n (int (length b)))) b"
  from assms False have nlt: "\<not> length (takeWhile (\<lambda>x. x \<noteq> c) w) < length w"
    and fit: "n \<le> int (length b)"
    by (auto simp: memchr_def Let_def w_def split: if_splits)
  have "length (takeWhile (\<lambda>x. x \<noteq> c) w) \<le> length w"
    by (rule length_takeWhile_le)
  with nlt have all: "length (takeWhile (\<lambda>x. x \<noteq> c) w) = length w"
    by linarith
  from all have "takeWhile (\<lambda>x. x \<noteq> c) w = w"
    using takeWhile_eq_take [of "\<lambda>x. x \<noteq> c" w] by simp
  then have "\<forall>x\<in>set w. x \<noteq> c"
    by (simp only: takeWhile_eq_all_conv)
  then have "c \<notin> set w"
    by blast
  moreover have "w = take (nat n) b" using fit by (simp add: w_def min_def)
  ultimately show ?thesis by simp
qed

section \<open>The claims\<close>

subsection \<open>Truncate mode\<close>

text \<open>
  The scenario of C1 on a fresh buffer of zero bytes: left margin 0, right margin 5,
  truncate mode, the text \<^verbatim>\<open>"abcdefgh\n"\<close>, then destroy. The sink receives
  \<^verbatim>\<open>"abcde\n"\<close>.
\<close>

lemma truncate_scenario_zeroed_block:
  "create_append_destroy 2 (fixed_breaks [] 0) (\<lambda>i. NUL) 0 5 (- 1) ''abcdefgh\<newline>''
     = Some (Inr ''abcde\<newline>'')"
  by code_simp

text \<open>
  C1 (the code departs from the claim). The claim: with left margin 0, right margin 5
  and truncate mode, appending \<^verbatim>\<open>"abcdefgh\n"\<close> and destroying the stream sends
  exactly \<^verbatim>\<open>"abcde\n"\<close> to the sink. The code searches the real terminator in the
  four bytes at offsets 10 to 13, which lie behind the text and hold whatever the
  allocator left there. On a fresh buffer with a line terminator at offset 10 the run
  does not deliver \<^verbatim>\<open>"abcde\n"\<close>: it ends in a read outside the buffer.
\<close>

theorem truncate_scenario_stale_terminator:
  "create_append_destroy 2 (fixed_breaks [] 0) (\<lambda>i. if i = 10 then NL else NUL)
       0 5 (- 1) ''abcdefgh\<newline>''
     = Some (Inl OutOfBounds)"
  by code_simp

text \<open>
  C5 (the code departs from the claim). The claim: after the truncation point the
  rewrite pass looks for the real terminator from that point on, over the remaining
  unprocessed bytes, and drops exactly the bytes between the two. For the text
  \<^verbatim>\<open>"abcdefgh\nij\n"\<close> with right margin 5 the truncation point is 5 and the real
  terminator stands at 8. The code starts its search at offset 10, finds the
  terminator of the next line at 11 and moves the six bytes behind the text over the
  line \<^verbatim>\<open>"ij"\<close>: the sink receives \<^verbatim>\<open>"abcde"\<close>, six zero bytes and a terminator,
  where the claim gives \<^verbatim>\<open>"abcde\nij\n"\<close>.
\<close>

theorem truncate_misses_real_terminator:
  "create_append_destroy 3 (fixed_breaks [] 0) (\<lambda>i. NUL) 0 5 (- 1)
       ''abcdefgh\<newline>ij\<newline>''
     = Some (Inr (''abcde'' @ replicate 6 NUL @ [NL]))"
  by code_simp

text \<open>
  C10 (the code departs from the claim). The claim: in truncate mode every byte the
  terminator searches of the rewrite pass read lies in the unprocessed span from
  \<open>point_offs\<close> up to \<open>p\<close>. In the scenario of C1 the unprocessed span is 0 to 8
  (\<open>p\<close> is 9); the second search reads the offsets 10 to 13.
\<close>

theorem truncate_search_reads_past_p:
  "(case create_append 2 (fixed_breaks [] 0) (\<lambda>i. NUL) 0 5 (- 1) ''abcdefgh\<newline>'' of
      Some (Inr (n, fs1)) \<Rightarrow>
        (case fmtstream_update 2 (fixed_breaks [] 0) fs1 of
           Inr fs2 \<Rightarrow> Some (point_offs fs1, p fs1, reads fs2)
         | Inl e \<Rightarrow> None)
    | _ \<Rightarrow> None)
   = Some (0, 9, [(0, 4), (10, 13)])"
  by code_simp

text \<open>
  Two more runs of truncate mode. A text shorter than the right margin and without
  terminator, \<^verbatim>\<open>"ab"\<close>: the second search gets the length \<open>p - point_offs\<close>
  = \<open>2 - 5\<close> as a \<^verbatim>\<open>size_t\<close> and leaves the buffer.
\<close>

lemma truncate_short_text_leaves_buffer:
  "create_append_destroy 2 (fixed_breaks [] 0) (\<lambda>i. NUL) 0 5 (- 1) ''ab''
     = Some (Inl OutOfBounds)"
  by code_simp

text \<open>
  A line shorter than the right margin, \<^verbatim>\<open>"ab\n"\<close>: the first search finds the
  terminator, \<open>point_offs\<close> becomes its offset, \<^verbatim>\<open>line_at_point\<close> moves the tail one
  byte back, and the next round finds the same terminator at the same offset. The loop
  uses up any fuel: \<^verbatim>\<open>__argp_fmtstream_free\<close> does not return.
\<close>

lemma stuck_step:
  assumes "stuck s"
  shows "\<exists>s'. truncate_line 0 s = Inr (True, s') \<and> stuck s'"
  using assms
  by (simp add: stuck_def truncate_line_def memchr_fs_def memchr_def Let_def NL_def NUL_def
     to_size_def to_ssize_def line_at_point_def space_needed_def reclaim.simps buf_end_def
     memmove_def in_buf_def store_def bytes_at_def examined_def)

lemma stuck_forever:
  "stuck s \<Longrightarrow> truncate_lines fuel 0 s = Inl FuelExhausted"
proof (induction fuel arbitrary: s)
  case 0
  then show ?case by (simp add: stuck_def to_ssize_def)
next
  case (Suc k)
  from stuck_step [OF Suc.prems] obtain s' where
    st: "truncate_line 0 s = Inr (True, s')" and s': "stuck s'"
    by blast
  have "to_ssize (point_offs s) < p s"
    using Suc.prems by (simp add: stuck_def to_ssize_def)
  with st Suc.IH [OF s'] show ?case by simp
qed

lemma destroy_never_returns:
  "create_append 2 (fixed_breaks [] 0) (\<lambda>i. NUL) 0 5 (- 1) ''ab\<newline>''
     = Some (Inr (3, line_appended))
   \<and> fmtstream_free fuel ev line_appended = Inl FuelExhausted"
proof -
  have a: "create_append 2 (fixed_breaks [] 0) (\<lambda>i. NUL) 0 5 (- 1) ''ab\<newline>''
     = Some (Inr (3, line_appended))"
    by code_simp
  have b: "to_ssize (point_offs line_appended) < p line_appended"
    "wmargin line_appended = - 1" "to_ssize (point_offs line_appended) = 0"
    by code_simp+
  define s1 where "s1 = snd (projr (truncate_line 0 line_appended))"
  have c: "truncate_line 0 line_appended = Inr (True, s1)"
    unfolding s1_def by code_simp
  have d: "stuck s1"
    unfolding s1_def by code_simp
  have "truncate_lines fuel 0 line_appended = Inl FuelExhausted"
  proof (cases fuel)
    case 0
    with b show ?thesis by simp
  next
    case (Suc k)
    with b c stuck_forever [OF d, of k] show ?thesis by simp
  qed
  with b have "fmtstream_update fuel ev line_appended = Inl FuelExhausted"
    by (simp add: fmtstream_update_def)
  with a show ?thesis by (simp add: fmtstream_free_def)
qed

subsection \<open>The invariant of the cursors\<close>

text \<open>
  C8 (the code departs from the claim). The claim: \<open>0 \<le> point_offs \<le> p \<le> end\<close>
  holds after create and after every operation. With left margin 2, right margin 5
  and truncate mode, the text \<^verbatim>\<open>"abcdefgh"\<close> gives a stream with \<open>point_offs = 0\<close>,
  \<open>p = 8\<close> and \<open>end = 200\<close>; after the rewrite pass \<open>point_offs\<close> is 8 and \<open>p\<close>
  is 6: the two spaces of the left margin were written behind \<open>p\<close>.
\<close>

theorem update_leaves_point_past_p:
  "(case create_append 2 (fixed_breaks [] 0) (\<lambda>i. NUL) 2 5 (- 1) ''abcdefgh'' of
      Some (Inr (n, fs1)) \<Rightarrow>
        (case fmtstream_update 2 (fixed_breaks [] 0) fs1 of
           Inr fs2 \<Rightarrow>
             Some (point_offs fs1, p fs1, buf_end fs1, point_offs fs2, p fs2, buf_end fs2)
         | Inl e \<Rightarrow> None)
    | _ \<Rightarrow> None)
   = Some (0, 8, 200, 8, 6, 200)"
  by code_simp

subsection \<open>Wrap mode and the line splicer\<close>

text \<open>
  C2 (the code departs from the claim). The claim: in wrap mode no byte is lost, and
  at a possible break the blank is replaced by one terminator. With margins 0, right
  margin 3 and wrap margin 0, the text \<^verbatim>\<open>"ab cd"\<close> and the blank at offset 2 labelled a
  possible break, the sink receives \<^verbatim>\<open>"ab\n c"\<close>: the terminator stands before the
  blank, which is kept, and the last byte \<^verbatim>\<open>d\<close> is lost, where the claim gives
  \<^verbatim>\<open>"ab\ncd"\<close>. With the label on the byte after the blank the sink receives
  \<^verbatim>\<open>"ab \nc"\<close>.
\<close>

theorem wrap_keeps_blank_and_drops_last_byte:
  "create_append_destroy 2
       (fixed_breaks [UC_BREAK_UNDEFINED, UC_BREAK_UNDEFINED, UC_BREAK_POSSIBLE,
                      UC_BREAK_UNDEFINED, UC_BREAK_UNDEFINED] 2)
       (\<lambda>i. NUL) 0 3 0 ''ab cd''
     = Some (Inr ''ab\<newline> c'')
   \<and> create_append_destroy 2
       (fixed_breaks [UC_BREAK_UNDEFINED, UC_BREAK_UNDEFINED, UC_BREAK_UNDEFINED,
                      UC_BREAK_POSSIBLE, UC_BREAK_UNDEFINED] 2)
       (\<lambda>i. NUL) 0 3 0 ''ab cd''
     = Some (Inr ''ab \<newline>c'')"
  by code_simp

text \<open>
  C3 (the code departs from the claim). The claim: the splicer inserts the suffix and
  \<open>lmargin\<close> spaces at \<open>point_offs\<close>, shifts the bytes from there to \<open>p\<close> forward
  by that many bytes and grows \<open>p\<close> by as much. With left margin 2 and wrap margin 0,
  the text \<^verbatim>\<open>"hello world foo"\<close> (\<open>p = 15\<close>), the point at offset 5 and the suffix
  \<^verbatim>\<open>"\n"\<close>, the claim gives the buffer \<^verbatim>\<open>"hello\n   world foo"\<close> with \<open>p = 18\<close>.
  The code shifts by one byte only, writes the two spaces over the blank and the
  \<^verbatim>\<open>w\<close>, and leaves \<open>p\<close> at 15. With the column invalid (\<open>point_col = - 1\<close>)
  the claim leaves it invalid; the code writes no spaces, leaves \<open>p\<close> at 15 and sets
  \<open>point_col\<close> to the left margin all the same.
\<close>

theorem line_at_point_overwrites_and_keeps_p:
  "(case create_append 2 (fixed_breaks [] 0) (\<lambda>i. NUL) 2 10 0 ''hello world foo'' of
      Some (Inr (n, fs1)) \<Rightarrow>
        (case line_at_point (fs1\<lparr>point_offs := 5\<rparr>) (Some [NL]) of
           Inr fs2 \<Rightarrow>
             Some (p fs1, take 18 (buf fs1),
                   point_offs fs2, p fs2, point_col fs2, take 18 (buf fs2))
         | Inl e \<Rightarrow> None)
    | _ \<Rightarrow> None)
   = Some (15, ''hello world foo'' @ replicate 3 NUL,
           8, 15, 2, ''hello\<newline>  orld foo'' @ replicate 2 NUL)
   \<and> (case create_append 2 (fixed_breaks [] 0) (\<lambda>i. NUL) 2 10 0 ''hello world foo'' of
        Some (Inr (n, fs1)) \<Rightarrow>
          (case line_at_point (fs1\<lparr>point_offs := 5, point_col := - 1\<rparr>) (Some [NL]) of
             Inr fs2 \<Rightarrow> Some (point_offs fs2, p fs2, point_col fs2, take 18 (buf fs2))
           | Inl e \<Rightarrow> None)
      | _ \<Rightarrow> None)
     = Some (6, 15, 2, ''hello\<newline> world foo'' @ replicate 2 NUL)"
  by code_simp

text \<open>
  Against C4 as it is stated. The claim: when room is missing, the splicer flushes
  the bytes up to and including the last terminator in front of \<open>point_offs\<close>. In
  the stream \<open>nearly_full\<close> the point is at 6 and terminators stand at 1 and 3: the
  claim gives the flushed bytes \<^verbatim>\<open>"a\nb\n"\<close>, \<open>p = 195\<close> and \<open>point_offs = 2\<close>.
  The loop of the code stops after one round, having flushed the first line only.
\<close>

theorem reclaim_flushes_first_line_only:
  "(case reclaim 2 6 nearly_full of
      Inr fs \<Rightarrow> Some (sink fs, p fs, point_offs fs)
    | Inl e \<Rightarrow> None)
   = Some (''a\<newline>'', 197, 4)
   \<and> (case reclaim 2 6 nearly_full of
        Inr fs \<Rightarrow> Some (sink fs, p fs, point_offs fs)
      | Inl e \<Rightarrow> None)
     \<noteq> Some (''a\<newline>b\<newline>'', 195, 2)"
  by code_simp

text \<open>
  C4 as amended: one round of the loop, on a sink that takes every byte. If a
  terminator stands in front of \<open>point_offs\<close>, the bytes up to and including the
  first one are flushed, and \<open>p\<close> and \<open>point_offs\<close> go back by the number of
  flushed bytes. If none stands there, in the first round (where \<open>queue\<close> is
  \<open>point_offs\<close>) the byte before \<open>point_offs\<close> becomes a terminator, the bytes up
  to and including it are flushed, and \<open>p\<close> and \<open>point_offs\<close> go back by
  \<open>point_offs\<close>.
\<close>

theorem output_first_line_flushes:
  assumes st: "output_first_line queue fs = Inr fs'"
    and acc: "accepts fs = []"
    and po: "0 \<le> point_offs fs" "point_offs fs < 2 ^ 63"
    and first: "queue = point_offs fs \<or> NL \<in> set (take (nat (point_offs fs)) (buf fs))"
  shows "if NL \<in> set (take (nat (point_offs fs)) (buf fs))
         then sink fs' = sink fs @ takeWhile (\<lambda>x. x \<noteq> NL) (buf fs) @ [NL]
            \<and> int (length (takeWhile (\<lambda>x. x \<noteq> NL) (buf fs))) + 1 \<le> point_offs fs
            \<and> p fs' = p fs - (int (length (takeWhile (\<lambda>x. x \<noteq> NL) (buf fs))) + 1)
            \<and> point_offs fs'
                = point_offs fs - (int (length (takeWhile (\<lambda>x. x \<noteq> NL) (buf fs))) + 1)
         else sink fs' = sink fs @ take (nat (point_offs fs) - 1) (buf fs) @ [NL]
            \<and> p fs' = p fs - point_offs fs
            \<and> point_offs fs' = 0"
proof -
  from st obtain nl b b' where
    c: "(memchr (buf fs) 0 NL (point_offs fs) = Inr (Some nl) \<and> b = buf fs)
     \<or> (memchr (buf fs) 0 NL (point_offs fs) = Inr None \<and> nl = queue - 1
        \<and> poke (buf fs) (queue - 1) NL = Inr b)"
    and mv: "memmove b 0 (nl + 1) (to_size (nl + 1)) = Inr b'"
    and s': "p fs' = p fs - (nl + 1)" "point_offs fs' = to_size (point_offs fs - (nl + 1))"
    and fr: "point_col fs' = point_col fs" "lmargin fs' = lmargin fs" "rmargin fs' = rmargin fs"
      "wmargin fs' = wmargin fs" "buf fs' = b'"
    and snk0: "accepts fs = [] \<longrightarrow> sink fs' = sink fs @ bytes_at b 0 nl @ [NL]"
    by (rule output_first_line_Inr)
  from snk0 acc have snk: "sink fs' = sink fs @ bytes_at b 0 nl @ [NL]" by simp
  from c show ?thesis
  proof
    assume "memchr (buf fs) 0 NL (point_offs fs) = Inr (Some nl) \<and> b = buf fs"
    then have m: "memchr (buf fs) 0 NL (point_offs fs) = Inr (Some nl)" and b: "b = buf fs"
      by simp_all
    define k where "k = length (takeWhile (\<lambda>x. x \<noteq> NL) (buf fs))"
    from memchr_start_Some [OF m] have nl: "nl = int k" and lt: "nl < point_offs fs"
      and inb: "k < length (buf fs)" and mem: "NL \<in> set (take (nat (point_offs fs)) (buf fs))"
      by (simp_all add: k_def)
    have "take k (buf fs) = takeWhile (\<lambda>x. x \<noteq> NL) (buf fs)"
      unfolding k_def by (rule takeWhile_eq_take [symmetric])
    then have bts: "bytes_at b 0 nl = takeWhile (\<lambda>x. x \<noteq> NL) (buf fs)"
      by (simp add: bytes_at_def b nl)
    have "to_size (point_offs fs - (nl + 1)) = point_offs fs - (nl + 1)"
      using lt po nl by (intro to_size_id) simp_all
    with s' snk bts mem nl lt show ?thesis
      by (simp add: k_def)
  next
    assume "memchr (buf fs) 0 NL (point_offs fs) = Inr None \<and> nl = queue - 1
        \<and> poke (buf fs) (queue - 1) NL = Inr b"
    then have m: "memchr (buf fs) 0 NL (point_offs fs) = Inr None" and nl: "nl = queue - 1"
      and pk: "poke (buf fs) (queue - 1) NL = Inr b"
      by simp_all
    from memchr_start_None [OF m] have nm: "NL \<notin> set (take (nat (point_offs fs)) (buf fs))" .
    with first have q: "queue = point_offs fs" by simp
    from pk have b: "b = (buf fs)[nat (queue - 1) := NL]" and q1: "0 \<le> queue - 1"
      by (auto simp: poke_def split: if_splits)
    have "bytes_at b 0 nl = take (nat (point_offs fs) - 1) (buf fs)"
      using q1 by (simp add: bytes_at_def b nl q nat_diff_distrib)
    with s' snk nm nl q show ?thesis
      by (simp add: to_size_def)
  qed
qed

text \<open>
  The theorem on \<open>nearly_full\<close>: with the point at 6 the first line \<^verbatim>\<open>"a\n"\<close>
  is flushed; with the point at 1 the byte at offset 0 becomes the terminator.
\<close>

theorem output_first_line_flushes_witness:
  "output_first_line 6 nearly_full = Inr first_round
   \<and> sink first_round = ''a\<newline>'' \<and> p first_round = 197 \<and> point_offs first_round = 4
   \<and> output_first_line 1 (nearly_full\<lparr>point_offs := 1\<rparr>) = Inr forced_round
   \<and> sink forced_round = ''\<newline>'' \<and> p forced_round = 198 \<and> point_offs forced_round = 0"
proof -
  have h1: "output_first_line 6 nearly_full = Inr first_round"
    by code_simp
  have h2: "accepts nearly_full = []" "0 \<le> point_offs nearly_full"
    "point_offs nearly_full < 2 ^ 63"
    by code_simp+
  have h3: "6 = point_offs nearly_full
      \<or> NL \<in> set (take (nat (point_offs nearly_full)) (buf nearly_full))"
    by code_simp
  have e1: "NL \<in> set (take (nat (point_offs nearly_full)) (buf nearly_full))"
    by code_simp
  have e2: "takeWhile (\<lambda>x. x \<noteq> NL) (buf nearly_full) = ''a''"
    "sink nearly_full = []" "p nearly_full = 199" "point_offs nearly_full = 6"
    by code_simp+
  let ?s = "nearly_full\<lparr>point_offs := 1\<rparr>"
  have k1: "output_first_line 1 ?s = Inr forced_round"
    by code_simp
  have k2: "accepts ?s = []" "0 \<le> point_offs ?s" "point_offs ?s < 2 ^ 63"
    by code_simp+
  have k3: "1 = point_offs ?s \<or> NL \<in> set (take (nat (point_offs ?s)) (buf ?s))"
    by code_simp
  have f1: "NL \<notin> set (take (nat (point_offs ?s)) (buf ?s))"
    by code_simp
  have f2: "take (nat (point_offs ?s) - 1) (buf ?s) = []"
    "sink ?s = []" "p ?s = 199" "point_offs ?s = 1"
    by code_simp+
  from output_first_line_flushes [OF h1 h2 h3] e1
  have a: "sink first_round = ''a\<newline>'' \<and> p first_round = 197 \<and> point_offs first_round = 4"
    unfolding e2 by (simp add: NL_def)
  from output_first_line_flushes [OF k1 k2 k3] f1
  have b: "sink forced_round = ''\<newline>'' \<and> p forced_round = 198 \<and> point_offs forced_round = 0"
    unfolding f2 by (simp add: NL_def)
  from h1 k1 a b show ?thesis by simp
qed

subsection \<open>The capacity manager\<close>

text \<open>
  What a returning call of \<^verbatim>\<open>__argp_fmtstream_ensure\<close> leaves behind; that a call
  with enough room returns at once; and the result of a call whose write to the sink
  takes all pending bytes.
\<close>

lemma ensure_returned:
  assumes ens: "fmtstream_ensure fuel ev fs amount = Inr (ok, fs')"
    and pr: "0 \<le> p fs" "p fs \<le> buf_end fs"
    and cap: "buf_end fs < 2 ^ 63"
    and am: "0 \<le> amount" "amount < 2 ^ 64"
  shows "(ok \<longrightarrow> amount \<le> buf_end fs' - p fs')
       \<and> (buf_end fs' = buf_end fs \<or> buf_end fs' = buf_end fs + amount)
       \<and> (buf_end fs < amount \<and> ok \<longrightarrow> buf_end fs' = buf_end fs + amount)
       \<and> (buf_end fs < amount \<and> (2 ^ 64 \<le> buf_end fs + amount \<or> realloc_mem ev = None)
            \<longrightarrow> \<not> ok)"
proof -
  have free: "to_size (buf_end fs - p fs) = buf_end fs - p fs"
    using pr cap by (intro to_size_id) simp_all
  show ?thesis
  proof (cases "to_size (buf_end fs - p fs) < amount")
    case False
    with ens have "ok" "fs' = fs" by (simp_all add: fmtstream_ensure_def)
    with False free pr show ?thesis by simp
  next
    case True
    with ens obtain fs1 where up: "fmtstream_update fuel ev fs = Inr fs1"
      by (auto simp: fmtstream_ensure_def split: sum.splits)
    from update_frame [OF up cap] have e1: "buf_end fs1 = buf_end fs"
      by (simp add: unchanged_def)
    obtain w fs2 where fw: "fwrite_unlocked fs1 (bytes_at (buf fs1) 0 (to_size (p fs1))) = (w, fs2)"
      by (rule prod.exhaust)
    then have fs2: "fs2 = snd (fwrite_unlocked fs1 (bytes_at (buf fs1) 0 (to_size (p fs1))))"
      by simp
    have f2: "buf fs2 = buf fs1" "p fs2 = p fs1" "point_offs fs2 = point_offs fs1"
      by (simp_all add: fs2 fwrite_unlocked_fields)
    show ?thesis
    proof (cases "to_ssize (int w) = p fs2")
      case full: True
      define g where "g = fs2\<lparr>p := 0, point_offs := 0\<rparr>"
      from ens True up fw full have r: "grow_buffer ev g amount = (ok, fs')"
        by (auto simp: fmtstream_ensure_def g_def Let_def split: if_splits)
      have eg: "buf_end g = buf_end fs" using f2 e1 by (simp add: g_def buf_end_def)
      have cg: "buf_end g < 2 ^ 63" using eg cap by simp
      note gc = grow_buffer_cases [OF am cg, of ev]
      show ?thesis
      proof (cases "buf_end fs < amount")
        case small: False
        with r gc eg have "ok" "fs' = g" by simp_all
        with small eg show ?thesis by (simp add: g_def)
      next
        case small: True
        show ?thesis
        proof (cases "2 ^ 64 \<le> buf_end fs + amount \<or> realloc_mem ev = None")
          case True
          with small r gc eg have "\<not> ok" "fs' = g\<lparr>enomem := True\<rparr>" by simp_all
          with eg show ?thesis by (simp add: buf_end_def)
        next
          case False
          with small r gc eg have k: "ok"
            and f: "fs' = g\<lparr>buf := buf g @ map (the (realloc_mem ev))
                                      [length (buf g)..<nat (buf_end g + amount)],
                         p := 0\<rparr>"
            by auto
          have "buf_end fs' = buf_end fs + amount"
            using f eg am by (simp add: buf_end_def)
          moreover have "p fs' = 0" using f by simp
          moreover have "0 \<le> buf_end fs" by (simp add: buf_end_def)
          ultimately show ?thesis using k False small am by simp
        qed
      qed
    next
      case short: False
      define fs3 where "fs3 = fs2\<lparr>p := p fs2 - to_ssize (int w),
                                   point_offs := to_size (point_offs fs2 - to_ssize (int w))\<rparr>"
      from ens True up fw short obtain b where
        mv: "memmove (buf fs3) 0 (to_ssize (int w)) (to_size (p fs3)) = Inr b"
        and r: "ok = False" "fs' = fs3\<lparr>buf := b\<rparr>"
        by (auto simp: fmtstream_ensure_def fs3_def Let_def split: if_splits sum.splits)
      from mv have "length b = length (buf fs3)" by (rule memmove_length)
      then have "buf_end fs' = buf_end fs"
        using r f2 e1 by (simp add: fs3_def buf_end_def)
      with r show ?thesis by simp
    qed
  qed
qed

lemma ensure_enough_room:
  assumes pr: "0 \<le> p fs" "p fs \<le> buf_end fs"
    and cap: "buf_end fs < 2 ^ 63"
    and enough: "amount \<le> buf_end fs - p fs"
  shows "fmtstream_ensure fuel ev fs amount = Inr (True, fs)"
proof -
  have "to_size (buf_end fs - p fs) = buf_end fs - p fs"
    using pr cap by (intro to_size_id) simp_all
  with enough show ?thesis by (simp add: fmtstream_ensure_def)
qed

lemma ensure_full_write:
  assumes pr: "0 \<le> p fs" "p fs \<le> buf_end fs"
    and cap: "buf_end fs < 2 ^ 63"
    and am: "0 \<le> amount" "amount < 2 ^ 64"
    and need: "buf_end fs - p fs < amount"
    and up: "fmtstream_update fuel ev fs = Inr fs1"
    and p1: "0 \<le> p fs1" "p fs1 \<le> buf_end fs1"
    and fw: "fwrite_unlocked fs1 (take (nat (p fs1)) (buf fs1)) = (nat (p fs1), fs2)"
  shows "fmtstream_ensure fuel ev fs amount =
           Inr (if buf_end fs < amount then
                  if 2 ^ 64 \<le> buf_end fs + amount \<or> realloc_mem ev = None
                  then (False, fs2\<lparr>p := 0, point_offs := 0, enomem := True\<rparr>)
                  else (True, fs2\<lparr>p := 0, point_offs := 0,
                                  buf := buf fs1 @ map (the (realloc_mem ev))
                                           [length (buf fs1)..<nat (buf_end fs + amount)]\<rparr>)
                else (True, fs2\<lparr>p := 0, point_offs := 0\<rparr>))"
proof -
  define n where "n = nat (p fs1)"
  have pn: "p fs1 = int n" using p1 by (simp add: n_def)
  have free: "to_size (buf_end fs - p fs) = buf_end fs - p fs"
    using pr cap by (intro to_size_id) simp_all
  from update_frame [OF up cap] have e1: "buf_end fs1 = buf_end fs"
    by (simp add: unchanged_def)
  have c1: "p fs1 < 2 ^ 63" using p1 e1 cap by simp
  have sz: "to_size (p fs1) = p fs1"
    using p1 c1 by (intro to_size_id) simp_all
  have ib: "in_buf (buf fs1) 0 (to_size (p fs1))"
    using p1 by (simp add: sz in_buf_def buf_end_def)
  have bytes: "bytes_at (buf fs1) 0 (to_size (p fs1)) = take n (buf fs1)"
    by (simp add: sz bytes_at_def n_def)
  have fw': "fwrite_unlocked fs1 (take n (buf fs1)) = (n, fs2)"
    using fw by (simp add: n_def)
  have wr: "to_ssize (int n) = int n"
    using c1 by (intro to_ssize_id) (simp_all add: pn)
  have fs2: "fs2 = snd (fwrite_unlocked fs1 (take n (buf fs1)))"
    using fw' by simp
  have f2: "buf fs2 = buf fs1" "p fs2 = p fs1"
    by (simp_all add: fs2 fwrite_unlocked_fields)
  have full: "int n = p fs2" using f2 pn by simp
  have wr2: "to_ssize (p fs2) = p fs2" using wr full by simp
  define g where "g = fs2\<lparr>p := 0, point_offs := 0\<rparr>"
  have eg: "buf_end g = buf_end fs" using f2 e1 by (simp add: g_def buf_end_def)
  have cg: "buf_end g < 2 ^ 63" using eg cap by simp
  have bg: "buf g = buf fs1" using f2 by (simp add: g_def)
  have gc: "grow_buffer ev g amount =
     (if buf_end fs < amount then
        (if 2 ^ 64 \<le> buf_end fs + amount \<or> realloc_mem ev = None
         then (False, g\<lparr>enomem := True\<rparr>)
         else (True, g\<lparr>buf := buf fs1 @ map (the (realloc_mem ev))
                                      [length (buf fs1)..<nat (buf_end fs + amount)],
                         p := 0\<rparr>))
      else (True, g))"
    using grow_buffer_cases [OF am cg, of ev] by (simp add: eg bg)
  have "fmtstream_ensure fuel ev fs amount = Inr (grow_buffer ev g amount)"
    unfolding fmtstream_ensure_def g_def
    using need up by (simp add: free ib bytes fw' wr wr2 full Let_def)
  then show ?thesis
    unfolding gc by (simp add: g_def)
qed

text \<open>
  C6: \<^verbatim>\<open>__argp_fmtstream_ensure\<close> on a stream whose write cursor is inside the buffer,
  for an \<open>amount\<close> in the range of \<^verbatim>\<open>size_t\<close>. A call that returns success leaves
  at least \<open>amount\<close> bytes between \<open>p\<close> and the end of the buffer; the size of the
  buffer stays or becomes the old size plus \<open>amount\<close>, and becomes that whenever the
  old buffer is smaller than \<open>amount\<close> and the call succeeds; no call succeeds when
  the old buffer is smaller than \<open>amount\<close> and the sum overflows \<^verbatim>\<open>size_t\<close> or
  \<^verbatim>\<open>realloc\<close> fails. A call with \<open>amount\<close> free bytes returns success at once.
  Otherwise, when the rewrite pass returns the stream \<open>fs1\<close> with its cursor inside the
  buffer and the sink takes all \<open>p fs1\<close> pending bytes, leaving \<open>fs2\<close>, the call
  returns: with failure and \<^verbatim>\<open>errno\<close> set to \<^verbatim>\<open>ENOMEM\<close> when the buffer is smaller
  than \<open>amount\<close> and the sum overflows or \<^verbatim>\<open>realloc\<close> fails; with success and a
  buffer of the old size plus \<open>amount\<close> when it is smaller and neither happens; with
  success and the old buffer when it is large enough; the cursors are at the start of
  the buffer in all three cases.
\<close>

theorem ensure_postcondition:
  assumes pr: "0 \<le> p fs" "p fs \<le> buf_end fs"
    and cap: "buf_end fs < 2 ^ 63"
    and am: "0 \<le> amount" "amount < 2 ^ 64"
  shows "(fmtstream_ensure fuel ev fs amount = Inr (ok, fs') \<longrightarrow>
            (ok \<longrightarrow> amount \<le> buf_end fs' - p fs')
          \<and> (buf_end fs' = buf_end fs \<or> buf_end fs' = buf_end fs + amount)
          \<and> (buf_end fs < amount \<and> ok \<longrightarrow> buf_end fs' = buf_end fs + amount)
          \<and> (buf_end fs < amount \<and> (2 ^ 64 \<le> buf_end fs + amount \<or> realloc_mem ev = None)
               \<longrightarrow> \<not> ok))
       \<and> (amount \<le> buf_end fs - p fs \<longrightarrow>
            fmtstream_ensure fuel ev fs amount = Inr (True, fs))
       \<and> (buf_end fs - p fs < amount
            \<and> fmtstream_update fuel ev fs = Inr fs1
            \<and> 0 \<le> p fs1 \<and> p fs1 \<le> buf_end fs1
            \<and> fwrite_unlocked fs1 (take (nat (p fs1)) (buf fs1)) = (nat (p fs1), fs2) \<longrightarrow>
            fmtstream_ensure fuel ev fs amount =
              Inr (if buf_end fs < amount then
                     if 2 ^ 64 \<le> buf_end fs + amount \<or> realloc_mem ev = None
                     then (False, fs2\<lparr>p := 0, point_offs := 0, enomem := True\<rparr>)
                     else (True, fs2\<lparr>p := 0, point_offs := 0,
                                     buf := buf fs1 @ map (the (realloc_mem ev))
                                              [length (buf fs1)..<nat (buf_end fs + amount)]\<rparr>)
                   else (True, fs2\<lparr>p := 0, point_offs := 0\<rparr>)))"
proof -
  have returned: "fmtstream_ensure fuel ev fs amount = Inr (ok, fs') \<longrightarrow>
            (ok \<longrightarrow> amount \<le> buf_end fs' - p fs')
          \<and> (buf_end fs' = buf_end fs \<or> buf_end fs' = buf_end fs + amount)
          \<and> (buf_end fs < amount \<and> ok \<longrightarrow> buf_end fs' = buf_end fs + amount)
          \<and> (buf_end fs < amount \<and> (2 ^ 64 \<le> buf_end fs + amount \<or> realloc_mem ev = None)
               \<longrightarrow> \<not> ok)"
  proof
    assume "fmtstream_ensure fuel ev fs amount = Inr (ok, fs')"
    from ensure_returned [OF this pr cap am]
    show "(ok \<longrightarrow> amount \<le> buf_end fs' - p fs')
          \<and> (buf_end fs' = buf_end fs \<or> buf_end fs' = buf_end fs + amount)
          \<and> (buf_end fs < amount \<and> ok \<longrightarrow> buf_end fs' = buf_end fs + amount)
          \<and> (buf_end fs < amount \<and> (2 ^ 64 \<le> buf_end fs + amount \<or> realloc_mem ev = None)
               \<longrightarrow> \<not> ok)" .
  qed
  have enough: "amount \<le> buf_end fs - p fs \<longrightarrow>
            fmtstream_ensure fuel ev fs amount = Inr (True, fs)"
  proof
    assume "amount \<le> buf_end fs - p fs"
    with pr cap show "fmtstream_ensure fuel ev fs amount = Inr (True, fs)"
      by (rule ensure_enough_room)
  qed
  have flushed: "buf_end fs - p fs < amount
            \<and> fmtstream_update fuel ev fs = Inr fs1
            \<and> 0 \<le> p fs1 \<and> p fs1 \<le> buf_end fs1
            \<and> fwrite_unlocked fs1 (take (nat (p fs1)) (buf fs1)) = (nat (p fs1), fs2) \<longrightarrow>
            fmtstream_ensure fuel ev fs amount =
              Inr (if buf_end fs < amount then
                     if 2 ^ 64 \<le> buf_end fs + amount \<or> realloc_mem ev = None
                     then (False, fs2\<lparr>p := 0, point_offs := 0, enomem := True\<rparr>)
                     else (True, fs2\<lparr>p := 0, point_offs := 0,
                                     buf := buf fs1 @ map (the (realloc_mem ev))
                                              [length (buf fs1)..<nat (buf_end fs + amount)]\<rparr>)
                   else (True, fs2\<lparr>p := 0, point_offs := 0\<rparr>))"
  proof
    assume h: "buf_end fs - p fs < amount
            \<and> fmtstream_update fuel ev fs = Inr fs1
            \<and> 0 \<le> p fs1 \<and> p fs1 \<le> buf_end fs1
            \<and> fwrite_unlocked fs1 (take (nat (p fs1)) (buf fs1)) = (nat (p fs1), fs2)"
    then have a: "buf_end fs - p fs < amount"
      and b: "fmtstream_update fuel ev fs = Inr fs1"
      and c: "0 \<le> p fs1" "p fs1 \<le> buf_end fs1"
      and d: "fwrite_unlocked fs1 (take (nat (p fs1)) (buf fs1)) = (nat (p fs1), fs2)"
      by simp_all
    from ensure_full_write [OF pr cap am a b c d]
    show "fmtstream_ensure fuel ev fs amount =
              Inr (if buf_end fs < amount then
                     if 2 ^ 64 \<le> buf_end fs + amount \<or> realloc_mem ev = None
                     then (False, fs2\<lparr>p := 0, point_offs := 0, enomem := True\<rparr>)
                     else (True, fs2\<lparr>p := 0, point_offs := 0,
                                     buf := buf fs1 @ map (the (realloc_mem ev))
                                              [length (buf fs1)..<nat (buf_end fs + amount)]\<rparr>)
                   else (True, fs2\<lparr>p := 0, point_offs := 0\<rparr>))" .
  qed
  show ?thesis by (rule conjI [OF returned conjI [OF enough flushed]])
qed

text \<open>
  The theorem on \<open>nearly_full\<close>: a call for 300 bytes flushes the 199 pending bytes
  and the buffer grows from 200 to 500 bytes; where \<^verbatim>\<open>realloc\<close> fails, and for
  \<open>2 ^ 64 - 1\<close> bytes, the call fails with \<^verbatim>\<open>ENOMEM\<close>; a call for one byte returns at
  once.
\<close>

theorem ensure_postcondition_witness:
  "fmtstream_ensure 0 (fixed_breaks [] 0) nearly_full 300 =
     Inr (True, nearly_full\<lparr>sink := ''a\<newline>b\<newline>cd '' @ replicate 192 (CHR ''x''),
                            p := 0, point_offs := 0,
                            buf := buf nearly_full @ replicate 300 NUL\<rparr>)
   \<and> 300 \<le> buf_end (snd (projr (fmtstream_ensure 0 (fixed_breaks [] 0) nearly_full 300)))
              - p (snd (projr (fmtstream_ensure 0 (fixed_breaks [] 0) nearly_full 300)))
   \<and> buf_end (snd (projr (fmtstream_ensure 0 (fixed_breaks [] 0) nearly_full 300)))
       = buf_end nearly_full + 300
   \<and> fmtstream_ensure 0 no_realloc nearly_full 300 =
       Inr (False, nearly_full\<lparr>sink := ''a\<newline>b\<newline>cd '' @ replicate 192 (CHR ''x''),
                               p := 0, point_offs := 0, enomem := True\<rparr>)
   \<and> fmtstream_ensure 0 (fixed_breaks [] 0) nearly_full (2 ^ 64 - 1) =
       Inr (False, nearly_full\<lparr>sink := ''a\<newline>b\<newline>cd '' @ replicate 192 (CHR ''x''),
                               p := 0, point_offs := 0, enomem := True\<rparr>)
   \<and> fmtstream_ensure 0 (fixed_breaks [] 0) nearly_full 1 = Inr (True, nearly_full)"
proof -
  let ?ev = "fixed_breaks [] 0"
  let ?u = "nearly_full\<lparr>point_offs := 199\<rparr>"
  let ?w = "nearly_full\<lparr>point_offs := 199,
                         sink := ''a\<newline>b\<newline>cd '' @ replicate 192 (CHR ''x'')\<rparr>"
  let ?r = "projr (fmtstream_ensure 0 ?ev nearly_full 300)"
  have h: "0 \<le> p nearly_full" "p nearly_full \<le> buf_end nearly_full"
    "buf_end nearly_full < 2 ^ 63"
    by code_simp+
  have a300: "(0::int) \<le> 300" "(300::int) < 2 ^ 64"
    and abig: "(0::int) \<le> 2 ^ 64 - 1" "(2 ^ 64 - 1 :: int) < 2 ^ 64"
    and a1: "(0::int) \<le> 1" "(1::int) < 2 ^ 64"
    by simp_all
  have full: "buf_end nearly_full - p nearly_full < 300"
    "buf_end nearly_full - p nearly_full < 2 ^ 64 - 1"
    and room: "1 \<le> buf_end nearly_full - p nearly_full"
    by code_simp+
  have up: "fmtstream_update 0 ?ev nearly_full = Inr ?u"
    "fmtstream_update 0 no_realloc nearly_full = Inr ?u"
    by code_simp+
  have pu: "0 \<le> p ?u" "p ?u \<le> buf_end ?u"
    by code_simp+
  have fw: "fwrite_unlocked ?u (take (nat (p ?u)) (buf ?u)) = (nat (p ?u), ?w)"
    by code_simp
  have small: "(buf_end nearly_full < 300) = True"
    "(buf_end nearly_full < 2 ^ 64 - 1) = True"
    by code_simp+
  have fits: "(2 ^ 64 \<le> buf_end nearly_full + 300 \<or> realloc_mem ?ev = None) = False"
    by code_simp
  have fails: "(2 ^ 64 \<le> buf_end nearly_full + 300 \<or> realloc_mem no_realloc = None) = True"
    by code_simp
  have over: "(2 ^ 64 \<le> buf_end nearly_full + (2 ^ 64 - 1) \<or> realloc_mem ?ev = None) = True"
    by code_simp
  have grown: "?w\<lparr>p := 0, point_offs := 0,
                  buf := buf ?u @ map (the (realloc_mem ?ev))
                           [length (buf ?u)..<nat (buf_end nearly_full + 300)]\<rparr>
      = nearly_full\<lparr>sink := ''a\<newline>b\<newline>cd '' @ replicate 192 (CHR ''x''),
                    p := 0, point_offs := 0,
                    buf := buf nearly_full @ replicate 300 NUL\<rparr>"
    by code_simp
  have failed: "?w\<lparr>p := 0, point_offs := 0, enomem := True\<rparr>
      = nearly_full\<lparr>sink := ''a\<newline>b\<newline>cd '' @ replicate 192 (CHR ''x''),
                    p := 0, point_offs := 0, enomem := True\<rparr>"
    by code_simp
  have hyp1: "buf_end nearly_full - p nearly_full < 300
      \<and> fmtstream_update 0 ?ev nearly_full = Inr ?u
      \<and> 0 \<le> p ?u \<and> p ?u \<le> buf_end ?u
      \<and> fwrite_unlocked ?u (take (nat (p ?u)) (buf ?u)) = (nat (p ?u), ?w)"
    by (intro conjI full(1) up(1) pu fw)
  have hyp2: "buf_end nearly_full - p nearly_full < 300
      \<and> fmtstream_update 0 no_realloc nearly_full = Inr ?u
      \<and> 0 \<le> p ?u \<and> p ?u \<le> buf_end ?u
      \<and> fwrite_unlocked ?u (take (nat (p ?u)) (buf ?u)) = (nat (p ?u), ?w)"
    by (intro conjI full(1) up(2) pu fw)
  have hyp3: "buf_end nearly_full - p nearly_full < 2 ^ 64 - 1
      \<and> fmtstream_update 0 ?ev nearly_full = Inr ?u
      \<and> 0 \<le> p ?u \<and> p ?u \<le> buf_end ?u
      \<and> fwrite_unlocked ?u (take (nat (p ?u)) (buf ?u)) = (nat (p ?u), ?w)"
    by (intro conjI full(2) up(1) pu fw)
  note t300 = ensure_postcondition [OF h a300]
  note e1 = t300 [THEN conjunct2, THEN conjunct2, THEN mp, OF hyp1,
      unfolded small fits if_True if_False grown]
  have e1': "fmtstream_ensure 0 ?ev nearly_full 300 = Inr (True, snd ?r)"
    unfolding e1 by (simp only: sum.sel snd_conv)
  note ret = t300 [THEN conjunct1, THEN mp, OF e1']
  have lt: "buf_end nearly_full < 300" using small(1) by (rule iffD2) (rule TrueI)
  note g1 = ret [THEN conjunct1, THEN mp, OF TrueI]
  note g2 = ret [THEN conjunct2, THEN conjunct2, THEN conjunct1, THEN mp, OF conjI [OF lt TrueI]]
  note e2 = t300 [THEN conjunct2, THEN conjunct2, THEN mp, OF hyp2,
      unfolded small fails if_True if_False failed]
  note e3 = ensure_postcondition [OF h abig, THEN conjunct2, THEN conjunct2, THEN mp, OF hyp3,
      unfolded small over if_True if_False failed]
  note e4 = ensure_postcondition [OF h a1, THEN conjunct2, THEN conjunct1, THEN mp, OF room]
  show ?thesis
    by (rule conjI [OF e1 conjI [OF g1 conjI [OF g2 conjI [OF e2 conjI [OF e3 e4]]]]])
qed

text \<open>
  C7: the buffer is too full for \<open>amount\<close>, the rewrite pass returns the stream
  \<open>fs1\<close>, and the sink takes only \<open>w\<close> of its \<open>p fs1\<close> pending bytes. Then
  \<^verbatim>\<open>__argp_fmtstream_ensure\<close> returns failure; the sink has received the first
  \<open>w\<close> bytes; \<open>p\<close> is smaller by \<open>w\<close> and \<open>point_offs\<close> is
  \<open>point_offs - w\<close> in the arithmetic of \<^verbatim>\<open>size_t\<close>; and the bytes the sink has
  not taken stand at the head of the buffer.
\<close>

theorem ensure_short_write:
  assumes need: "to_size (buf_end fs - p fs) < amount"
    and up: "fmtstream_update fuel ev fs = Inr fs1"
    and acc: "accepts fs1 = w # rest"
    and short: "int w < p fs1"
    and inside: "p fs1 \<le> buf_end fs1"
    and cap: "buf_end fs1 < 2 ^ 63"
  shows "fmtstream_ensure fuel ev fs amount =
           Inr (False,
                fs1\<lparr>sink := sink fs1 @ take w (buf fs1),
                    accepts := rest,
                    p := p fs1 - int w,
                    point_offs := to_size (point_offs fs1 - int w),
                    buf := drop w (take (nat (p fs1)) (buf fs1))
                           @ drop (nat (p fs1) - w) (buf fs1)\<rparr>)"
proof -
  define n where "n = nat (p fs1)"
  have pn: "p fs1 = int n" and wn: "w < n" and nl: "n \<le> length (buf fs1)"
    using short inside by (simp_all add: n_def buf_end_def)
  have sz: "to_size (p fs1) = p fs1"
    using short inside cap by (intro to_size_id) simp_all
  have ib: "in_buf (buf fs1) 0 (to_size (p fs1))"
    using inside short by (simp add: sz in_buf_def buf_end_def)
  have bytes: "bytes_at (buf fs1) 0 (to_size (p fs1)) = take n (buf fs1)"
    by (simp add: sz bytes_at_def n_def)
  have fw: "fwrite_unlocked fs1 (take n (buf fs1)) =
      (w, fs1\<lparr>sink := sink fs1 @ take w (buf fs1), accepts := rest\<rparr>)"
    using acc wn nl by (simp add: fwrite_unlocked_def min_def)
  have wr: "to_ssize (int w) = int w"
    using short inside cap by (intro to_ssize_id) simp_all
  have sz2: "to_size (p fs1 - int w) = int (n - w)"
    using wn cap inside pn by (simp add: to_size_def)
  have mv: "memmove (buf fs1) 0 (int w) (int (n - w)) =
      Inr (drop w (take n (buf fs1)) @ drop (n - w) (buf fs1))"
  proof -
    have "nat (int n - int w) = n - w" by simp
    with wn nl show ?thesis
      by (simp add: memmove_def in_buf_def store_def bytes_at_def drop_take
            del: nat_diff_distrib')
  qed
  have ne: "int w \<noteq> p fs1" using short by simp
  show ?thesis
    unfolding fmtstream_ensure_def
    using need up ne
    by (simp add: ib bytes fw wr sz2 mv Let_def) (simp add: n_def)
qed

text \<open>
  The theorem on \<open>slow_sink\<close>: the sink takes five of the 199 pending bytes, the
  other 194 stand at the head of the buffer.
\<close>

theorem ensure_short_write_witness:
  "fmtstream_ensure 0 (fixed_breaks [] 0) slow_sink 300 =
     Inr (False,
          (projr (fmtstream_update 0 (fixed_breaks [] 0) slow_sink))
            \<lparr>sink := ''a\<newline>b\<newline>c'', accepts := [], p := 194, point_offs := 194,
             buf := ''d '' @ replicate 192 (CHR ''x'') @ replicate 5 (CHR ''x'') @ [NUL]\<rparr>)"
proof -
  let ?fs1 = "projr (fmtstream_update 0 (fixed_breaks [] 0) slow_sink)"
  have h1: "to_size (buf_end slow_sink - p slow_sink) < 300"
    by code_simp
  have h2: "fmtstream_update 0 (fixed_breaks [] 0) slow_sink = Inr ?fs1"
    by code_simp
  have h3: "accepts ?fs1 = [5]"
    by code_simp
  have h4: "int 5 < p ?fs1" "p ?fs1 \<le> buf_end ?fs1" "buf_end ?fs1 < 2 ^ 63"
    by code_simp+
  have v: "sink ?fs1 @ take 5 (buf ?fs1) = ''a\<newline>b\<newline>c''"
    "p ?fs1 - int 5 = 194" "to_size (point_offs ?fs1 - int 5) = 194"
    "drop 5 (take (nat (p ?fs1)) (buf ?fs1)) @ drop (nat (p ?fs1) - 5) (buf ?fs1)
       = ''d '' @ replicate 192 (CHR ''x'') @ replicate 5 (CHR ''x'') @ [NUL]"
    by code_simp+
  from ensure_short_write [OF h1 h2 h3 h4] show ?thesis
    unfolding v .
qed

subsection \<open>The rewrite pass run twice\<close>

text \<open>
  C9: when a rewrite pass returns, a second pass right after it returns the same
  stream: no output, no cursor moves. The stream has its write cursor inside a buffer
  of less than \<open>2 ^ 60\<close> bytes and a wrap margin below \<open>2 ^ 60\<close>, so that no
  counter leaves the range of \<^verbatim>\<open>ssize_t\<close>; and a failed allocation of the labels
  in the first pass fails again in the second.
\<close>

theorem update_idempotent:
  assumes first: "fmtstream_update fuel ev fs = Inr fs1"
    and inside: "p fs \<le> buf_end fs"
    and cap: "buf_end fs < 2 ^ 60"
    and wm: "- (2 ^ 63) \<le> wmargin fs" "wmargin fs < 2 ^ 60"
    and alloc: "lns_alloc ev \<or> \<not> lns_alloc ev'"
  shows "fmtstream_update fuel' ev' fs1 = Inr fs1"
  using first
proof (cases rule: update_cases)
  case finished
  then show ?thesis by (simp add: update_returns_at_once)
next
  case trunc
  have "buf_end fs < 2 ^ 63" using cap by simp
  from truncate_lines_effect [OF trunc(3) trunc(2) this] show ?thesis
    by (simp add: update_returns_at_once)
next
  case nomem
  with alloc show ?thesis by (simp add: fmtstream_update_def)
next
  case (wrap lns col t)
  define q where "q = to_ssize (point_offs fs)"
  define n where "n = to_size (p fs - q)"
  from wrap(4) have q0: "0 \<le> q" and qn: "q + n \<le> buf_end fs"
    by (simp_all add: in_buf_def q_def n_def buf_end_def)
  from wrap(1) inside cap q0 have n: "n = p fs - q"
    unfolding n_def q_def by (intro to_size_id) simp_all
  have len: "int (length (take (nat n) (lns @ replicate (nat n) UC_BREAK_UNDEFINED))) = n"
    using n wrap(1) by (simp add: q_def)
  have lo: "- (2 ^ 61) \<le> to_ssize (point_offs fs) - p fs"
    using q0 inside cap by (simp add: q_def)
  have up: "max (to_ssize (point_offs fs)) (buf_end fs)
      + 2 * int (length (take (nat n) (lns @ replicate (nat n) UC_BREAK_UNDEFINED))) < 2 ^ 62"
    unfolding len using q0 qn n inside cap wrap(1) by (simp add: q_def)
  from wrap(5) have wb: "wrap_breaks (take (nat n) (lns @ replicate (nat n) UC_BREAK_UNDEFINED)) fs = Inr t"
    by (simp add: n_def q_def)
  from wrap_breaks_effect [OF wb cap wm lo up]
  have "to_ssize (point_offs fs) - p fs + n \<le> to_ssize (point_offs t) - p t"
    unfolding len by simp
  with n have "p t \<le> to_ssize (point_offs t)" by (simp add: q_def)
  with wrap(6) show ?thesis by (simp add: update_returns_at_once)
qed

text \<open>
  The theorem on \<open>nearly_full\<close>: the first pass flushes a line and moves the
  cursors, the second changes nothing.
\<close>

theorem update_idempotent_witness:
  "fmtstream_update 0 (fixed_breaks [UC_BREAK_POSSIBLE] 0) nearly_full = Inr first_pass
   \<and> sink first_pass = ''a\<newline>'' \<and> p first_pass = 197 \<and> point_offs first_pass = 197
   \<and> fmtstream_update 0 (fixed_breaks [UC_BREAK_POSSIBLE] 0) first_pass = Inr first_pass"
proof -
  have h1: "fmtstream_update 0 (fixed_breaks [UC_BREAK_POSSIBLE] 0) nearly_full = Inr first_pass"
    by code_simp
  have h2: "p nearly_full \<le> buf_end nearly_full"
    by code_simp
  have h3: "buf_end nearly_full < 2 ^ 60"
    by code_simp
  have h4: "- (2 ^ 63) \<le> wmargin nearly_full" "wmargin nearly_full < 2 ^ 60"
    by code_simp+
  have h5: "lns_alloc (fixed_breaks [UC_BREAK_POSSIBLE] 0)
      \<or> \<not> lns_alloc (fixed_breaks [UC_BREAK_POSSIBLE] 0)"
    by simp
  have a: "sink first_pass = ''a\<newline>''" "p first_pass = 197" "point_offs first_pass = 197"
    by code_simp+
  from update_idempotent [OF h1 h2 h3 h4 h5, of 0] h1 a show ?thesis
    by simp
qed

end
